theory Spec2Isabelle
  imports Main "HOL-Library.Word"
begin

unbundle bit_operations_syntax

section \<open>Bloom filter (package analyzer, bloomfilter.go)\<close>

text \<open>
  Go strings are byte sequences: a \<^typ>\<open>string\<close> here is the list of the bytes.
  \<open>uint\<close> is taken at its 64-bit width (the width Go gives it on 64-bit targets),
  so \<open>uint(h.Sum64())\<close> is the identity. A failing run-time check of Go
  (a modulus by zero, an index outside the slice) is a value of the type \<open>panic\<close>.
\<close>

datatype panic = IntegerDivideByZero | IndexOutOfRange

record BloomFilter =
  bits :: "bool list"
  size_bf :: "64 word"
  hashCount :: "64 word"

definition NewBloomFilter :: "64 word \<Rightarrow> 64 word \<Rightarrow> BloomFilter" where
  "NewBloomFilter sz hc =
     \<lparr>bits = replicate (unat sz) False, size_bf = sz, hashCount = hc\<rparr>"

text \<open>\<open>hash/fnv\<close>, \<open>New64a\<close>: FNV-1a on 64 bits.\<close>

definition offset64 :: "64 word" where
  "offset64 = 14695981039346656037"

definition prime64 :: "64 word" where
  "prime64 = 1099511628211"

definition fnv_write :: "64 word \<Rightarrow> 8 word list \<Rightarrow> 64 word" where
  "fnv_write h bs = foldl (\<lambda>h b. (h XOR ucast b) * prime64) h bs"

definition bytes_of :: "string \<Rightarrow> 8 word list" where
  "bytes_of s = map of_char s"

text \<open>\<open>hash(item, seed)\<close>: the item's bytes, then the single byte \<open>byte(seed)\<close>.\<close>

definition hash :: "string \<Rightarrow> 64 word \<Rightarrow> 64 word" where
  "hash item seed = fnv_write (fnv_write offset64 (bytes_of item)) [ucast seed]"

text \<open>The values \<open>i\<close> of \<open>for i := uint(0); i < bf.hashCount; i++\<close>, in order.\<close>

definition seeds :: "BloomFilter \<Rightarrow> 64 word list" where
  "seeds bf = map of_nat [0..<unat (hashCount bf)]"

text \<open>\<open>bf.bits[hash%bf.size]\<close>: the index expression, with its two run-time checks.\<close>

definition slot :: "BloomFilter \<Rightarrow> string \<Rightarrow> 64 word \<Rightarrow> panic + nat" where
  "slot bf item i =
     (if size_bf bf = 0 then Inl IntegerDivideByZero
      else let j = unat (hash item i mod size_bf bf)
           in if j < length (bits bf) then Inr j else Inl IndexOutOfRange)"

fun Add_loop :: "string \<Rightarrow> 64 word list \<Rightarrow> BloomFilter \<Rightarrow> panic + BloomFilter" where
  "Add_loop item [] bf = Inr bf"
| "Add_loop item (i # rest) bf =
     (case slot bf item i of
        Inl e \<Rightarrow> Inl e
      | Inr j \<Rightarrow> Add_loop item rest (bf\<lparr>bits := (bits bf)[j := True]\<rparr>))"

definition Add :: "BloomFilter \<Rightarrow> string \<Rightarrow> panic + BloomFilter" where
  "Add bf item = Add_loop item (seeds bf) bf"

fun Contains_loop :: "string \<Rightarrow> 64 word list \<Rightarrow> BloomFilter \<Rightarrow> panic + bool" where
  "Contains_loop item [] bf = Inr True"
| "Contains_loop item (i # rest) bf =
     (case slot bf item i of
        Inl e \<Rightarrow> Inl e
      | Inr j \<Rightarrow> if \<not> bits bf ! j then Inr False else Contains_loop item rest bf)"

definition Contains :: "BloomFilter \<Rightarrow> string \<Rightarrow> panic + bool" where
  "Contains bf item = Contains_loop item (seeds bf) bf"

definition Clear :: "BloomFilter \<Rightarrow> BloomFilter" where
  "Clear bf = bf\<lparr>bits := map (\<lambda>_. False) (bits bf)\<rparr>"

text \<open>A run of further \<open>Add\<close> calls, in order; it stops at the first panic.\<close>

fun AddAll :: "BloomFilter \<Rightarrow> string list \<Rightarrow> panic + BloomFilter" where
  "AddAll bf [] = Inr bf"
| "AddAll bf (x # xs) = (case Add bf x of Inl e \<Rightarrow> Inl e | Inr bf' \<Rightarrow> AddAll bf' xs)"

text \<open>No bit that is 1 in the first array is 0 in the second, and the length is kept.\<close>

definition bits_grow :: "bool list \<Rightarrow> bool list \<Rightarrow> bool" where
  "bits_grow bs cs = list_all2 (\<lambda>b c. b \<longrightarrow> c) bs cs"

text \<open>The slots of an item: what \<open>Add\<close> sets and \<open>Contains\<close> reads.\<close>

definition set_at :: "BloomFilter \<Rightarrow> string \<Rightarrow> 64 word \<Rightarrow> bool" where
  "set_at bf item i = (case slot bf item i of Inl e \<Rightarrow> False | Inr j \<Rightarrow> bits bf ! j)"


text \<open>
  The filter as its constructor leaves it: a non-empty array of \<open>size\<close> bits.
  \<open>Add\<close> and \<open>Clear\<close> keep it so.
\<close>

definition bf_ok :: "BloomFilter \<Rightarrow> bool" where
  "bf_ok bf = (size_bf bf \<noteq> 0 \<and> length (bits bf) = unat (size_bf bf))"

text \<open>The indices \<open>hash(item, i) % size\<close> for \<open>i = 0, ..., hashCount - 1\<close>.\<close>

definition positions :: "BloomFilter \<Rightarrow> string \<Rightarrow> nat list" where
  "positions bf item = map (\<lambda>i. unat (hash item i mod size_bf bf)) (seeds bf)"

section \<open>Parser (package parser, parser.go)\<close>

record LogEntry =
  Timestamp :: string
  Level :: string
  Source :: string
  Message :: string

record ParsedLog =
  Timestamp :: string
  Level :: string
  Source :: string
  Message :: string
  IP :: string
  ErrorCode :: string
  Keywords :: "string list"

subsection \<open>The functions of Go's \<open>strings\<close> package that \<open>parse\<close> calls\<close>

text \<open>
  \<open>strings.Fields\<close> and \<open>strings.ToLower\<close> take a fast path on a string whose bytes
  are all below \<open>utf8.RuneSelf\<close> (0x80) and otherwise go through the Unicode tables of
  the Go library (\<open>FieldsFunc(s, unicode.IsSpace)\<close>, \<open>Map(unicode.ToLower, s)\<close>).
  The fast paths are modelled here; the two Unicode routines are not part of this
  repository and are the parameters \<open>FieldsFunc_IsSpace\<close> and \<open>Map_ToLower\<close>.
\<close>

record unicode =
  FieldsFunc_IsSpace :: "string \<Rightarrow> string list"
  Map_ToLower :: "string \<Rightarrow> string"

definition isASCII :: "string \<Rightarrow> bool" where
  "isASCII s = list_all (\<lambda>c. (of_char c :: nat) < 128) s"

text \<open>The table \<open>asciiSpace\<close>: tab, newline, vertical tab, form feed, return, space.\<close>

definition asciiSpace :: "char \<Rightarrow> bool" where
  "asciiSpace c = ((of_char c :: nat) \<in> {9, 10, 11, 12, 13, 32})"

text \<open>
  The ASCII loop of \<open>Fields\<close>: \<open>cur\<close> is the field being read (empty between fields).
\<close>

fun fields_ascii :: "string \<Rightarrow> string \<Rightarrow> string list" where
  "fields_ascii cur [] = (if cur = [] then [] else [cur])"
| "fields_ascii cur (c # cs) =
     (if asciiSpace c
      then (if cur = [] then fields_ascii [] cs else cur # fields_ascii [] cs)
      else fields_ascii (cur @ [c]) cs)"

definition Fields :: "unicode \<Rightarrow> string \<Rightarrow> string list" where
  "Fields uc s = (if isASCII s then fields_ascii [] s else FieldsFunc_IsSpace uc s)"

definition lower_byte :: "char \<Rightarrow> char" where
  "lower_byte c =
     (let n = (of_char c :: nat) in if 65 \<le> n \<and> n \<le> 90 then char_of (n + 32) else c)"

definition ToLower :: "unicode \<Rightarrow> string \<Rightarrow> string" where
  "ToLower uc s = (if isASCII s then map lower_byte s else Map_ToLower uc s)"

text \<open>
  \<open>strings.Trim(s, cutset)\<close> for a cutset of ASCII bytes (here \<open>".,;:!?"\<close>): the library
  removes the leading and the trailing bytes of \<open>s\<close> that are in the cutset, byte by byte
  (\<open>trimLeftASCII(trimRightASCII(s, as), as)\<close>).
\<close>

definition trimRight :: "string \<Rightarrow> string \<Rightarrow> string" where
  "trimRight s cutset = rev (dropWhile (\<lambda>c. c \<in> set cutset) (rev s))"

definition trimLeft :: "string \<Rightarrow> string \<Rightarrow> string" where
  "trimLeft s cutset = dropWhile (\<lambda>c. c \<in> set cutset) s"

definition Trim :: "string \<Rightarrow> string \<Rightarrow> string" where
  "Trim s cutset = trimLeft (trimRight s cutset) cutset"

subsection \<open>The two regular expressions\<close>

text \<open>
  The fragment of Go's \<open>regexp\<close> syntax that the parser's two patterns use: a byte class,
  concatenation, alternation, a greedy counted repetition \<open>{lo,hi}\<close> and the ASCII
  word boundary \<open>\b\<close>. No atom of the two patterns matches a byte from 0x80 on, so
  matching bytes is matching runes.
\<close>

datatype rx = Cls "char list" | Cat rx rx | Alt rx rx | Rep rx nat nat | WordB

text \<open>
  A cursor into the text: the byte before it (none at the start), the bytes matched so
  far and the bytes still ahead.
\<close>

type_synonym cursor = "char option \<times> string \<times> string"

definition is_word :: "char option \<Rightarrow> bool" where
  "is_word p =
     (case p of
        None \<Rightarrow> False
      | Some c \<Rightarrow> c \<in> set ''0123456789ABCDEFGHIJKLMNOPQRSTUVWXYZ_abcdefghijklmnopqrstuvwxyz'')"

definition ahead :: "string \<Rightarrow> char option" where
  "ahead rest = (case rest of [] \<Rightarrow> None | c # _ \<Rightarrow> Some c)"

text \<open>
  \<open>repeat_rx f lo hi\<close>: between \<open>lo\<close> and \<open>hi\<close> rounds of \<open>f\<close>, one more round first
  (greedy).
\<close>

fun repeat_rx :: "(cursor \<Rightarrow> cursor list) \<Rightarrow> nat \<Rightarrow> nat \<Rightarrow> cursor \<Rightarrow> cursor list" where
  "repeat_rx f lo 0 k = (if lo = 0 then [k] else [])"
| "repeat_rx f lo (Suc hi) k =
     concat (map (repeat_rx f (lo - 1) hi) (f k)) @ (if lo = 0 then [k] else [])"

text \<open>
  Every way the pattern matches at the cursor, in the order of preference of a
  leftmost-first (Perl-like) matcher, which is the match \<open>regexp\<close> reports.
\<close>

primrec matches :: "rx \<Rightarrow> cursor \<Rightarrow> cursor list" where
  "matches (Cls cs) =
     (\<lambda>(p, acc, rest).
        case rest of
          [] \<Rightarrow> []
        | c # r \<Rightarrow> if c \<in> set cs then [(Some c, acc @ [c], r)] else [])"
| "matches (Cat a b) = (\<lambda>k. concat (map (matches b) (matches a k)))"
| "matches (Alt a b) = (\<lambda>k. matches a k @ matches b k)"
| "matches (Rep a lo hi) = repeat_rx (matches a) lo hi"
| "matches WordB =
     (\<lambda>(p, acc, rest). if is_word p \<noteq> is_word (ahead rest) then [(p, acc, rest)] else [])"

text \<open>\<open>FindString\<close>: the first start, from the left, at which the pattern matches; \<open>""\<close> if none.\<close>

fun find_from :: "rx \<Rightarrow> char option \<Rightarrow> string \<Rightarrow> string" where
  "find_from r p [] = (case matches r (p, [], []) of [] \<Rightarrow> [] | (_, m, _) # _ \<Rightarrow> m)"
| "find_from r p (c # cs) =
     (case matches r (p, [], c # cs) of
        [] \<Rightarrow> find_from r (Some c) cs
      | (_, m, _) # _ \<Rightarrow> m)"

definition FindString :: "rx \<Rightarrow> string \<Rightarrow> string" where
  "FindString r s = find_from r None s"

fun lit :: "string \<Rightarrow> rx" where
  "lit [] = Rep (Cls []) 0 0"
| "lit [c] = Cls [c]"
| "lit (c # cs) = Cat (Cls [c]) (lit cs)"

definition digit :: rx where
  "digit = Cls ''0123456789''"

text \<open>\<^verbatim>\<open>\b(?:\d{1,3}\.){3}\d{1,3}\b\<close>\<close>

definition ipRegex :: rx where
  "ipRegex =
     Cat WordB (Cat (Rep (Cat (Rep digit 1 3) (Cls ''.'')) 3 3) (Cat (Rep digit 1 3) WordB))"

text \<open>\<^verbatim>\<open>\b(?:ERROR|FATAL|CRITICAL|[45]\d{2})\b\<close>\<close>

definition errorRegex :: rx where
  "errorRegex =
     Cat WordB
       (Cat (Alt (lit ''ERROR'')
               (Alt (lit ''FATAL'') (Alt (lit ''CRITICAL'') (Cat (Cls ''45'') (Rep digit 2 2)))))
          WordB)"

subsection \<open>\<open>parse\<close>\<close>

text \<open>The keyword loop: \<open>kws\<close> is \<open>parsed.Keywords\<close>, appended to in place.\<close>

fun keywords_loop :: "unicode \<Rightarrow> string list \<Rightarrow> string list \<Rightarrow> string list" where
  "keywords_loop uc [] kws = kws"
| "keywords_loop uc (word # words) kws =
     (let w = ToLower uc (Trim word ''.,;:!?'')
      in if length w > 3 then keywords_loop uc words (kws @ [w]) else keywords_loop uc words kws)"

definition parse :: "unicode \<Rightarrow> LogEntry \<Rightarrow> ParsedLog" where
  "parse uc entry =
     \<lparr>ParsedLog.Timestamp = LogEntry.Timestamp entry,
      ParsedLog.Level = LogEntry.Level entry,
      ParsedLog.Source = LogEntry.Source entry,
      ParsedLog.Message = LogEntry.Message entry,
      IP = FindString ipRegex (LogEntry.Message entry),
      ErrorCode = FindString errorRegex (LogEntry.Message entry),
      Keywords = keywords_loop uc (Fields uc (LogEntry.Message entry)) []\<rparr>"

section \<open>Analyzer (package analyzer, analyzer.go)\<close>

text \<open>
  \<open>Metadata\<close> is a \<open>map[string]interface{}\<close>; the values stored in it are a bool, an
  \<open>int\<close> (64 bits, read with \<^term>\<open>sint\<close>) and a string.
\<close>

datatype meta = MBool bool | MInt "64 word" | MString string

record Alert =
  Timestamp :: string
  Severity :: string
  Reason :: string
  Log :: ParsedLog
  Metadata :: "string \<rightharpoonup> meta"

record Rule =
  Name :: string
  Check :: "ParsedLog \<Rightarrow> bool"
  Severity :: string

text \<open>
  The analyzer's own state. Its channels are not fields here: what is received is an
  argument of \<open>processLog\<close>, what is sent is in its result.
\<close>

record Analyzer =
  rules :: "Rule list"
  bloomFilter :: BloomFilter
  windowCount :: "string \<rightharpoonup> 64 word"

definition suspiciousWords :: "string list" where
  "suspiciousWords = [''attack'', ''breach'', ''unauthorized'', ''exploit'', ''malicious'']"

definition initializeRules :: "Rule list" where
  "initializeRules =
     [\<lparr>Name = ''Critical Error Level'',
       Check = (\<lambda>l. ParsedLog.Level l = ''CRITICAL'' \<or> ParsedLog.Level l = ''FATAL''),
       Severity = ''HIGH''\<rparr>,
      \<lparr>Name = ''Error Code 5xx'',
       Check = (\<lambda>l. length (ErrorCode l) > 0 \<and> ErrorCode l ! 0 = CHR ''5''),
       Severity = ''HIGH''\<rparr>,
      \<lparr>Name = ''Suspicious Keywords'',
       Check = (\<lambda>l. list_ex (\<lambda>kw. list_ex (\<lambda>sw. kw = sw) suspiciousWords) (Keywords l)),
       Severity = ''MEDIUM''\<rparr>,
      \<lparr>Name = ''Error Rate Threshold'',
       Check = (\<lambda>l. ParsedLog.Level l = ''ERROR''),
       Severity = ''MEDIUM''\<rparr>]"

definition NewAnalyzer :: Analyzer where
  "NewAnalyzer =
     \<lparr>rules = initializeRules, bloomFilter = NewBloomFilter 100000 3, windowCount = Map.empty\<rparr>"

text \<open>Reading a Go map: a key that is not in it reads as 0.\<close>

definition count_of :: "Analyzer \<Rightarrow> string \<Rightarrow> 64 word" where
  "count_of a k = (case windowCount a k of None \<Rightarrow> 0 | Some c \<Rightarrow> c)"

text \<open>
  The ticker case of \<open>cleanupWindow\<close>, run under \<open>windowMutex\<close>:
  \<open>a.windowCount = make(map[string]int)\<close>.
\<close>

definition cleanupWindow_tick :: "Analyzer \<Rightarrow> Analyzer" where
  "cleanupWindow_tick a = a\<lparr>windowCount := Map.empty\<rparr>"

text \<open>
  What the rest of the process decides during one round of the loop of \<open>processLog\<close>:
  whether the ticker case of \<open>cleanupWindow\<close> ran since the analyzer last held
  \<open>windowMutex\<close>, the reading of the clock, and which case of the final \<open>select\<close> ran
  (the send on \<open>alertChan\<close> or the receive on \<open>shutdown\<close>).
\<close>

datatype select_case = Sent | ShutdownObserved

record sched =
  tick_before_lock :: bool
  now :: string
  chosen :: select_case

text \<open>
  What the analyzer does that can be seen from outside: an alert it built, with the case
  of the \<open>select\<close> that took it (\<open>Sent\<close>: it is on \<open>alertChan\<close>), and a reset of the
  window counters (logged as \<open>Window counters reset\<close>). A history lists them in the
  order in which the rounds and the ticker held \<open>windowMutex\<close>.
\<close>

datatype obs = Built Alert select_case | Reset

definition ruleKey :: "Rule \<Rightarrow> ParsedLog \<Rightarrow> string" where
  "ruleKey rule logEntry = Name rule @ '':'' @ ParsedLog.Source logEntry"

text \<open>
  The body of \<open>if rule.Check(logEntry)\<close> up to the \<open>select\<close>: the analyzer after it and
  the alert. A tick of the window ticker that falls into this round takes \<open>windowMutex\<close>
  before the round does; the filter is not its concern, so where it falls before that does
  not matter.
\<close>

definition fire :: "sched \<Rightarrow> Rule \<Rightarrow> ParsedLog \<Rightarrow> Analyzer \<Rightarrow> panic + (Analyzer \<times> Alert)" where
  "fire e rule logEntry a =
     (let bloomKey = ruleKey rule logEntry in
      case Contains (bloomFilter a) bloomKey of
        Inl p \<Rightarrow> Inl p
      | Inr isKnownPattern \<Rightarrow>
          (case Add (bloomFilter a) bloomKey of
             Inl p \<Rightarrow> Inl p
           | Inr bf \<Rightarrow>
               let a1 = a\<lparr>bloomFilter := bf\<rparr>;
                   a2 = (if tick_before_lock e then cleanupWindow_tick a1 else a1);
                   countKey = ruleKey rule logEntry;
                   a3 = a2\<lparr>windowCount := (windowCount a2)(countKey \<mapsto> count_of a2 countKey + 1)\<rparr>;
                   count = count_of a3 countKey;
                   alert = \<lparr>Alert.Timestamp = now e,
                            Alert.Severity = Rule.Severity rule,
                            Reason = Name rule,
                            Log = logEntry,
                            Metadata = [''is_known_pattern'' \<mapsto> MBool isKnownPattern,
                                        ''count_in_window'' \<mapsto> MInt count,
                                        ''rule_name'' \<mapsto> MString (Name rule)]\<rparr>
               in Inr (a3, alert)))"

text \<open>
  The loop of \<open>processLog\<close> from its \<open>n\<close>-th round on: \<open>env n\<close> is what the rest of the
  process decides during round \<open>n\<close>.
\<close>

fun processRules ::
  "(nat \<Rightarrow> sched) \<Rightarrow> nat \<Rightarrow> Rule list \<Rightarrow> ParsedLog \<Rightarrow> Analyzer \<Rightarrow> panic + (Analyzer \<times> obs list)" where
  "processRules env n [] logEntry a = Inr (a, [])"
| "processRules env n (rule # rest) logEntry a =
     (if Check rule logEntry then
        (case fire (env n) rule logEntry a of
           Inl p \<Rightarrow> Inl p
         | Inr (a3, alert) \<Rightarrow>
             (let seen = (if tick_before_lock (env n) then [Reset] else []) in
              case chosen (env n) of
                ShutdownObserved \<Rightarrow> Inr (a3, seen @ [Built alert ShutdownObserved])
              | Sent \<Rightarrow>
                  (case processRules env (Suc n) rest logEntry a3 of
                     Inl p \<Rightarrow> Inl p
                   | Inr (a', tr) \<Rightarrow> Inr (a', seen @ Built alert Sent # tr))))
      else processRules env (Suc n) rest logEntry a)"

definition processLog :: "(nat \<Rightarrow> sched) \<Rightarrow> ParsedLog \<Rightarrow> Analyzer \<Rightarrow> panic + (Analyzer \<times> obs list)" where
  "processLog env logEntry a = processRules env 0 (rules a) logEntry a"

text \<open>
  The analyzer's two goroutines over time: a record taken from \<open>inputChan\<close> and
  processed (with what the rest of the process decides meanwhile), or a tick of the
  window ticker between two records.
\<close>

datatype event = Recv ParsedLog "nat \<Rightarrow> sched" | Tick

fun run :: "event list \<Rightarrow> Analyzer \<Rightarrow> panic + (Analyzer \<times> obs list)" where
  "run [] a = Inr (a, [])"
| "run (Recv logEntry env # evs) a =
     (case processLog env logEntry a of
        Inl p \<Rightarrow> Inl p
      | Inr (a1, tr1) \<Rightarrow>
          (case run evs a1 of Inl p \<Rightarrow> Inl p | Inr (a2, tr2) \<Rightarrow> Inr (a2, tr1 @ tr2)))"
| "run (Tick # evs) a =
     (case run evs (cleanupWindow_tick a) of
        Inl p \<Rightarrow> Inl p
      | Inr (a2, tr2) \<Rightarrow> Inr (a2, Reset # tr2))"

subsection \<open>Reading the alerts of a history\<close>

definition alertKey :: "Alert \<Rightarrow> string" where
  "alertKey al = Reason al @ '':'' @ ParsedLog.Source (Log al)"

definition is_known_pattern :: "Alert \<Rightarrow> bool option" where
  "is_known_pattern al =
     (case Metadata al ''is_known_pattern'' of Some (MBool b) \<Rightarrow> Some b | _ \<Rightarrow> None)"

definition count_in_window :: "Alert \<Rightarrow> 64 word option" where
  "count_in_window al =
     (case Metadata al ''count_in_window'' of Some (MInt c) \<Rightarrow> Some c | _ \<Rightarrow> None)"

text \<open>The alerts of a history, in order, and those that reached \<open>alertChan\<close>.\<close>

fun built :: "obs list \<Rightarrow> Alert list" where
  "built [] = []"
| "built (Built al c # tr) = al # built tr"
| "built (Reset # tr) = built tr"

fun sent :: "obs list \<Rightarrow> Alert list" where
  "sent [] = []"
| "sent (Built al Sent # tr) = al # sent tr"
| "sent (Built al ShutdownObserved # tr) = sent tr"
| "sent (Reset # tr) = sent tr"

section \<open>Ingestor (package ingestor, ingestor.go): \<open>Start\<close>\<close>

text \<open>
  What the operating system answers when the two listeners are opened: the error of
  \<open>server.ListenAndServe\<close> and of \<open>net.Listen\<close>, if any.
\<close>

datatype net_error = BindError

record net =
  http_listen :: "net_error option"
  tcp_listen :: "net_error option"

record surfaces =
  http_accepting :: bool
  tcp_accepting :: bool
  logged :: "string list"

datatype goroutine = HTTPServer | TCPServer

text \<open>The two goroutines up to the point where they accept connections or give up.\<close>

definition startHTTPServer :: "net \<Rightarrow> surfaces \<Rightarrow> surfaces" where
  "startHTTPServer os s =
     (case http_listen os of
        Some err \<Rightarrow> s\<lparr>logged := logged s @ [''HTTP server error'']\<rparr>
      | None \<Rightarrow> s\<lparr>http_accepting := True\<rparr>)"

definition startTCPServer :: "net \<Rightarrow> surfaces \<Rightarrow> surfaces" where
  "startTCPServer os s =
     (case tcp_listen os of
        Some err \<Rightarrow> s\<lparr>logged := logged s @ [''TCP server error'']\<rparr>
      | None \<Rightarrow> s\<lparr>tcp_accepting := True\<rparr>)"

text \<open>
  \<open>Start\<close>: two \<open>go\<close> statements, a log line, \<open>return nil\<close>. The result is the returned
  error and the goroutines it has started; neither has run when it returns.
\<close>

definition Start :: "net \<Rightarrow> net_error option \<times> goroutine list" where
  "Start os = (None, [HTTPServer, TCPServer])"

fun run_goroutine :: "net \<Rightarrow> goroutine \<Rightarrow> surfaces \<Rightarrow> surfaces" where
  "run_goroutine os HTTPServer s = startHTTPServer os s"
| "run_goroutine os TCPServer s = startTCPServer os s"

text \<open>
  \<open>main\<close> after \<open>ing.Start()\<close>: \<open>log.Fatalf\<close> (the process exits) when the result is an
  error, else it goes on.
\<close>

datatype process = Exited | Running

definition main_after_Start :: "net \<Rightarrow> process" where
  "main_after_Start os = (case fst (Start os) of Some err \<Rightarrow> Exited | None \<Rightarrow> Running)"

text \<open>The surfaces once the goroutines that \<open>Start\<close> started have run.\<close>

definition started :: "net \<Rightarrow> surfaces" where
  "started os =
     fold (run_goroutine os) (snd (Start os))
       \<lparr>http_accepting = False, tcp_accepting = False, logged = []\<rparr>"

section \<open>Histories: what the claims say about a run\<close>

text \<open>
  The window counters after a history, replayed from the counters \<open>m\<close> before it: a
  reset puts every counter to 0, an alert adds 1 to the counter of its key.
\<close>

fun replay_counts :: "(string \<Rightarrow> 64 word) \<Rightarrow> obs list \<Rightarrow> string \<Rightarrow> 64 word" where
  "replay_counts m [] = m"
| "replay_counts m (Reset # tr) = replay_counts (\<lambda>_. 0) tr"
| "replay_counts m (Built al c # tr) =
     replay_counts (\<lambda>k. if k = alertKey al then m k + 1 else m k) tr"

text \<open>Every alert of the history carries the count of its key after its own increment.\<close>

fun counts_ok :: "(string \<Rightarrow> 64 word) \<Rightarrow> obs list \<Rightarrow> bool" where
  "counts_ok m [] = True"
| "counts_ok m (Reset # tr) = counts_ok (\<lambda>_. 0) tr"
| "counts_ok m (Built al c # tr) =
     (count_in_window al = Some (m (alertKey al) + 1) \<and>
      counts_ok (\<lambda>k. if k = alertKey al then m k + 1 else m k) tr)"

text \<open>
  How many alerts for the key \<open>K\<close> the history holds after its last reset (\<open>n\<close>: how many
  were counted before the history).
\<close>

fun in_window :: "string \<Rightarrow> nat \<Rightarrow> obs list \<Rightarrow> nat" where
  "in_window K n [] = n"
| "in_window K n (Reset # tr) = in_window K 0 tr"
| "in_window K n (Built al c # tr) = in_window K (if alertKey al = K then Suc n else n) tr"

text \<open>
  A stretch of events inside one window: no tick of the window ticker, neither between
  two records nor during one.
\<close>

fun tick_free :: "event list \<Rightarrow> bool" where
  "tick_free [] = True"
| "tick_free (Tick # evs) = False"
| "tick_free (Recv logEntry env # evs) = ((\<forall>n. \<not> tick_before_lock (env n)) \<and> tick_free evs)"

text \<open>A stretch of events during which no \<open>select\<close> takes the shutdown case.\<close>

fun all_sent :: "event list \<Rightarrow> bool" where
  "all_sent [] = True"
| "all_sent (Tick # evs) = all_sent evs"
| "all_sent (Recv logEntry env # evs) = ((\<forall>n. chosen (env n) = Sent) \<and> all_sent evs)"

text \<open>The \<open>count_in_window\<close> values of the alerts for the key \<open>K\<close> that were sent, in order.\<close>

definition sent_counts :: "string \<Rightarrow> obs list \<Rightarrow> 64 word option list" where
  "sent_counts K tr = map count_in_window (filter (\<lambda>al. alertKey al = K) (sent tr))"

text \<open>The indices of the bits that are 1.\<close>

definition ones :: "BloomFilter \<Rightarrow> nat set" where
  "ones bf = {j. j < length (bits bf) \<and> bits bf ! j}"

text \<open>The keys of the alerts of a history.\<close>

definition keys_of :: "obs list \<Rightarrow> string set" where
  "keys_of tr = alertKey ` set (built tr)"

text \<open>
  Every alert of the history carries the sample of the filter taken before its own key
  was added: \<open>B\<close> are the indices at 1 before the history, \<open>pos K\<close> the indices of key \<open>K\<close>.
\<close>

fun known_ok :: "(string \<Rightarrow> nat set) \<Rightarrow> nat set \<Rightarrow> obs list \<Rightarrow> bool" where
  "known_ok pos B [] = True"
| "known_ok pos B (Reset # tr) = known_ok pos B tr"
| "known_ok pos B (Built al c # tr) =
     (is_known_pattern al = Some (pos (alertKey al) \<subseteq> B) \<and>
      known_ok pos (B \<union> pos (alertKey al)) tr)"

text \<open>The history of a run that did not panic.\<close>

definition history :: "panic + (Analyzer \<times> obs list) \<Rightarrow> obs list" where
  "history r = (case r of Inl p \<Rightarrow> [] | Inr (a, tr) \<Rightarrow> tr)"

section \<open>The keyword list as the specification words it\<close>

text \<open>
  The specification's sentence on \<open>keywords\<close>, taken at its word: split the message on
  whitespace, lowercase each token, strip the trailing punctuation only, keep the tokens
  longer than 3.
\<close>

definition keywords_claimed :: "unicode \<Rightarrow> string \<Rightarrow> string list" where
  "keywords_claimed uc msg =
     filter (\<lambda>w. length w > 3)
       (map (\<lambda>w. trimRight (ToLower uc w) ''.,;:!?'') (Fields uc msg))"

text \<open>A record whose message has a token with punctuation in front.\<close>

definition retry_entry :: LogEntry where
  "retry_entry =
     \<lparr>LogEntry.Timestamp = ''2024-01-15T10:30:00Z'', LogEntry.Level = ''WARN'',
      LogEntry.Source = ''api'', LogEntry.Message = ''connection lost ...retrying''\<rparr>"

section \<open>Scenarios\<close>

text \<open>A schedule with no shutdown and no window tick: every alert is sent.\<close>

definition steady :: "nat \<Rightarrow> sched" where
  "steady n = \<lparr>tick_before_lock = False, now = ''2024-01-15T10:30:01Z'', chosen = Sent\<rparr>"

text \<open>A schedule under which every \<open>select\<close> takes the shutdown case.\<close>

definition halted :: "nat \<Rightarrow> sched" where
  "halted n = \<lparr>tick_before_lock = False, now = ''2024-01-15T10:30:01Z'', chosen = ShutdownObserved\<rparr>"

text \<open>The record of scenario S1 of the specification, as it arrives.\<close>

definition S1_entry :: LogEntry where
  "S1_entry =
     \<lparr>LogEntry.Timestamp = ''2024-01-15T10:30:00Z'', LogEntry.Level = ''FATAL'',
      LogEntry.Source = ''db'', LogEntry.Message = ''Security breach from 10.0.0.1''\<rparr>"

text \<open>The record of scenario S2, parsed.\<close>

definition S2_parsed :: ParsedLog where
  "S2_parsed =
     \<lparr>ParsedLog.Timestamp = ''2024-01-15T10:30:00Z'', ParsedLog.Level = ''ERROR'',
      ParsedLog.Source = ''api'', ParsedLog.Message = ''upstream returned 503 timeout'',
      IP = [], ErrorCode = ''503'', Keywords = [''upstream'', ''returned'', ''timeout'']\<rparr>"

text \<open>The record of scenario S1 as the parser leaves it.\<close>

definition S1_parsed :: ParsedLog where
  "S1_parsed =
     \<lparr>ParsedLog.Timestamp = ''2024-01-15T10:30:00Z'', ParsedLog.Level = ''FATAL'',
      ParsedLog.Source = ''db'', ParsedLog.Message = ''Security breach from 10.0.0.1'',
      IP = ''10.0.0.1'', ErrorCode = [],
      Keywords = [''security'', ''breach'', ''from'', ''10.0.0.1'']\<rparr>"

text \<open>
  A stand-in for the Unicode routines of the Go library, for evaluating the parser on
  ASCII text (where they are not called).
\<close>

definition unicode_unused :: unicode where
  "unicode_unused = \<lparr>FieldsFunc_IsSpace = (\<lambda>s. []), Map_ToLower = (\<lambda>s. s)\<rparr>"

text \<open>The key and the known-pattern flag of every alert sent, in order.\<close>

definition flags :: "obs list \<Rightarrow> (string \<times> bool option) list" where
  "flags tr = map (\<lambda>al. (alertKey al, is_known_pattern al)) (sent tr)"

text \<open>A record on which the first rule alone fires, from a given source.\<close>

definition critical_from :: "string \<Rightarrow> ParsedLog" where
  "critical_from src =
     \<lparr>ParsedLog.Timestamp = ''2024-01-15T10:30:00Z'', ParsedLog.Level = ''CRITICAL'',
      ParsedLog.Source = src, ParsedLog.Message = ''down'',
      IP = [], ErrorCode = [], Keywords = [''down'']\<rparr>"

section \<open>Bloom filter: lemmas\<close>

lemma bits_grow_iff:
  "bits_grow bs cs \<longleftrightarrow> length cs = length bs \<and> (\<forall>j < length bs. bs ! j \<longrightarrow> cs ! j)"
  unfolding bits_grow_def list_all2_conv_all_nth by metis

lemma bits_grow_refl: "bits_grow bs bs"
  by (simp add: bits_grow_iff)

lemma bits_grow_trans: "bits_grow as bs \<Longrightarrow> bits_grow bs cs \<Longrightarrow> bits_grow as cs"
  by (simp add: bits_grow_iff)

lemma bits_grow_update: "bits_grow bs (bs[j := True])"
  by (cases "j < length bs") (auto simp: bits_grow_iff nth_list_update)

lemma bits_grow_nth: "bits_grow bs cs \<Longrightarrow> j < length bs \<Longrightarrow> bs ! j \<Longrightarrow> cs ! j"
  by (simp add: bits_grow_iff)

lemma slot_frame:
  "size_bf bf' = size_bf bf \<Longrightarrow> length (bits bf') = length (bits bf) \<Longrightarrow>
     slot bf' item i = slot bf item i"
  by (simp add: slot_def)

lemma Add_loop_frame:
  "Add_loop item js bf = Inr bf' \<Longrightarrow>
     size_bf bf' = size_bf bf \<and> hashCount bf' = hashCount bf \<and> bits_grow (bits bf) (bits bf')"
proof (induction js arbitrary: bf)
  case Nil
  then show ?case by (simp add: bits_grow_refl)
next
  case (Cons i rest)
  then obtain j where j: "slot bf item i = Inr j"
    and run: "Add_loop item rest (bf\<lparr>bits := (bits bf)[j := True]\<rparr>) = Inr bf'"
    by (auto split: sum.splits)
  have "bits_grow (bits bf) ((bits bf)[j := True])"
    by (rule bits_grow_update)
  with Cons.IH [OF run] show ?case
    by (auto intro: bits_grow_trans)
qed

lemma Add_frame:
  "Add bf item = Inr bf' \<Longrightarrow>
     size_bf bf' = size_bf bf \<and> hashCount bf' = hashCount bf \<and> bits_grow (bits bf) (bits bf')"
  unfolding Add_def by (rule Add_loop_frame)

lemma AddAll_frame:
  "AddAll bf xs = Inr bf' \<Longrightarrow>
     size_bf bf' = size_bf bf \<and> hashCount bf' = hashCount bf \<and> bits_grow (bits bf) (bits bf')"
proof (induction xs arbitrary: bf)
  case Nil
  then show ?case by (simp add: bits_grow_refl)
next
  case (Cons x xs)
  then obtain bf1 where a: "Add bf x = Inr bf1" and r: "AddAll bf1 xs = Inr bf'"
    by (auto split: sum.splits)
  from Add_frame [OF a] Cons.IH [OF r] show ?case
    using bits_grow_trans by auto
qed

lemma set_at_grow:
  assumes "set_at bf item i" "size_bf bf' = size_bf bf" "bits_grow (bits bf) (bits bf')"
  shows "set_at bf' item i"
proof -
  from assms(1) obtain j where j: "slot bf item i = Inr j" "bits bf ! j"
    by (auto simp: set_at_def split: sum.splits)
  then have lt: "j < length (bits bf)"
    by (auto simp: slot_def Let_def split: if_splits)
  have len: "length (bits bf') = length (bits bf)"
    using assms(3) by (simp add: bits_grow_iff)
  have "slot bf' item i = Inr j"
    using j(1) slot_frame [OF assms(2) len] by simp
  moreover have "bits bf' ! j"
    using bits_grow_nth [OF assms(3) lt j(2)] .
  ultimately show ?thesis by (simp add: set_at_def)
qed

lemma Add_loop_sets:
  "Add_loop item js bf = Inr bf' \<Longrightarrow> i \<in> set js \<Longrightarrow> set_at bf' item i"
proof (induction js arbitrary: bf)
  case Nil
  then show ?case by simp
next
  case (Cons k rest)
  then obtain j where j: "slot bf item k = Inr j"
    and run: "Add_loop item rest (bf\<lparr>bits := (bits bf)[j := True]\<rparr>) = Inr bf'"
    by (auto split: sum.splits)
  let ?b1 = "bf\<lparr>bits := (bits bf)[j := True]\<rparr>"
  show ?case
  proof (cases "i \<in> set rest")
    case True
    then show ?thesis using Cons.IH [OF run] by simp
  next
    case False
    then have ik: "i = k" using Cons.prems(2) by simp
    have lt: "j < length (bits bf)"
      using j by (auto simp: slot_def Let_def split: if_splits)
    have "slot ?b1 item k = Inr j"
      using j slot_frame [of ?b1 bf item k] by simp
    then have here: "set_at ?b1 item k"
      using lt by (simp add: set_at_def)
    from Add_loop_frame [OF run] have "size_bf bf' = size_bf ?b1" "bits_grow (bits ?b1) (bits bf')"
      by simp_all
    from set_at_grow [OF here this] show ?thesis using ik by simp
  qed
qed

lemma Contains_loop_True:
  "\<forall>i \<in> set js. set_at bf item i \<Longrightarrow> Contains_loop item js bf = Inr True"
  by (induction js) (auto simp: set_at_def split: sum.splits)

lemma Contains_after_Add:
  assumes a: "Add bf x = Inr bf1" and r: "AddAll bf1 ys = Inr bf2"
  shows "Contains bf2 x = Inr True"
proof -
  from Add_frame [OF a] AddAll_frame [OF r]
  have fr: "size_bf bf2 = size_bf bf1" "hashCount bf2 = hashCount bf" "hashCount bf1 = hashCount bf"
    "bits_grow (bits bf1) (bits bf2)"
    by simp_all
  have "\<forall>i \<in> set (seeds bf). set_at bf1 x i"
    using Add_loop_sets a unfolding Add_def by blast
  then have "\<forall>i \<in> set (seeds bf). set_at bf2 x i"
    using set_at_grow fr(1,4) by blast
  moreover have "seeds bf2 = seeds bf"
    using fr(2) by (simp add: seeds_def)
  ultimately show ?thesis
    unfolding Contains_def using Contains_loop_True by simp
qed

lemma slot_total:
  "size_bf bf \<noteq> 0 \<Longrightarrow> length (bits bf) = unat (size_bf bf) \<Longrightarrow>
     slot bf item i = Inr (unat (hash item i mod size_bf bf))"
proof -
  assume nz: "size_bf bf \<noteq> 0" and len: "length (bits bf) = unat (size_bf bf)"
  have "hash item i mod size_bf bf < size_bf bf"
    using nz by (simp add: word_mod_less_divisor word_neq_0_conv)
  then have "unat (hash item i mod size_bf bf) < unat (size_bf bf)"
    by (simp add: word_less_nat_alt)
  then show ?thesis
    using nz len by (simp add: slot_def Let_def)
qed

lemma Add_loop_total:
  "size_bf bf \<noteq> 0 \<Longrightarrow> length (bits bf) = unat (size_bf bf) \<Longrightarrow> \<exists>bf'. Add_loop item js bf = Inr bf'"
proof (induction js arbitrary: bf)
  case Nil
  then show ?case by simp
next
  case (Cons i rest)
  let ?b1 = "bf\<lparr>bits := (bits bf)[unat (hash item i mod size_bf bf) := True]\<rparr>"
  have "\<exists>bf'. Add_loop item rest ?b1 = Inr bf'"
    using Cons.prems by (intro Cons.IH) simp_all
  then show ?case
    using slot_total [OF Cons.prems] by simp
qed

lemma Clear_bits: "bits (Clear bf) = replicate (length (bits bf)) False"
  by (simp add: Clear_def map_replicate_const)

lemma bf_ok_New: "sz \<noteq> 0 \<Longrightarrow> bf_ok (NewBloomFilter sz hc)"
  by (simp add: bf_ok_def NewBloomFilter_def)

lemma Add_total: "bf_ok bf \<Longrightarrow> \<exists>bf'. Add bf item = Inr bf'"
  unfolding Add_def bf_ok_def by (simp add: Add_loop_total)

lemma bf_ok_Add: "bf_ok bf \<Longrightarrow> Add bf item = Inr bf' \<Longrightarrow> bf_ok bf'"
  using Add_frame [of bf item bf'] by (simp add: bf_ok_def bits_grow_iff)

lemma Contains_loop_total:
  "size_bf bf \<noteq> 0 \<Longrightarrow> length (bits bf) = unat (size_bf bf) \<Longrightarrow>
     Contains_loop item js bf = Inr (list_all (\<lambda>i. bits bf ! unat (hash item i mod size_bf bf)) js)"
  by (induction js) (simp_all add: slot_total)

lemma Contains_total:
  "bf_ok bf \<Longrightarrow> Contains bf item = Inr (list_all (\<lambda>j. bits bf ! j) (positions bf item))"
  unfolding Contains_def bf_ok_def positions_def
  by (simp add: Contains_loop_total list_all_iff)

section \<open>The Bloom filter's contract\<close>

text \<open>
  Claim C7. For every Bloom filter \<open>bf\<close> and item \<open>x\<close>: an \<open>Add(x)\<close> that returns leaves
  every bit that was 1 at 1 and keeps the length of the array (bits only go from 0 to
  1); after it, \<open>Contains(x)\<close> returns true, also after any further \<open>Add\<close> calls (no false
  negative until a \<open>Clear\<close>); \<open>Clear\<close> leaves an array of the same length with every bit 0.
  On a filter as \<open>NewBloomFilter\<close> makes it, with a size other than 0, \<open>Add\<close> does return
  (it does not panic) and leaves such a filter.
\<close>

theorem bloom_monotone_no_false_negatives:
  "(Add bf x = Inr bf1 \<longrightarrow>
      bits_grow (bits bf) (bits bf1) \<and>
      (\<forall>ys bf2. AddAll bf1 ys = Inr bf2 \<longrightarrow> Contains bf2 x = Inr True)) \<and>
   length (bits (Clear bf)) = length (bits bf) \<and>
   list_all (\<lambda>b. \<not> b) (bits (Clear bf)) \<and>
   (bf_ok bf \<longrightarrow> (\<exists>bf1. Add bf x = Inr bf1 \<and> bf_ok bf1))"
proof -
  have "list_all (\<lambda>b. \<not> b) (bits (Clear bf))"
    by (simp add: Clear_bits list_all_iff)
  moreover have "length (bits (Clear bf)) = length (bits bf)"
    by (simp add: Clear_bits)
  moreover have "bf_ok bf \<longrightarrow> (\<exists>bf1. Add bf x = Inr bf1 \<and> bf_ok bf1)"
    using Add_total bf_ok_Add by blast
  moreover have "Add bf x = Inr bf1 \<longrightarrow> bits_grow (bits bf) (bits bf1)"
    using Add_frame by blast
  moreover have "Add bf x = Inr bf1 \<longrightarrow>
      (\<forall>ys bf2. AddAll bf1 ys = Inr bf2 \<longrightarrow> Contains bf2 x = Inr True)"
    using Contains_after_Add by blast
  ultimately show ?thesis by blast
qed

theorem bloom_monotone_no_false_negatives_witness:
  "\<exists>bf1. Add (NewBloomFilter 8 2) ''a'' = Inr bf1 \<and>
      bits_grow (bits (NewBloomFilter 8 2)) (bits bf1) \<and> Contains bf1 ''a'' = Inr True"
proof -
  have ok: "bf_ok (NewBloomFilter 8 2)"
    by (simp add: bf_ok_New)
  note th = bloom_monotone_no_false_negatives [of "NewBloomFilter 8 2" "''a''"]
  from th ok obtain bf1 where a: "Add (NewBloomFilter 8 2) ''a'' = Inr bf1"
    by blast
  have later: "AddAll bf1 [] = Inr bf1" by simp
  from bloom_monotone_no_false_negatives [of "NewBloomFilter 8 2" "''a''" bf1] a later
  have "bits_grow (bits (NewBloomFilter 8 2)) (bits bf1) \<and> Contains bf1 ''a'' = Inr True"
    by blast
  with a show ?thesis by blast
qed

section \<open>The parser's contract\<close>

text \<open>
  Claim C8. For every raw log \<open>R\<close>, the parsed log \<open>parse(R)\<close> carries the timestamp,
  level, source and message of \<open>R\<close>, byte for byte.
\<close>

theorem parse_carries_fields:
  "ParsedLog.Timestamp (parse uc R) = LogEntry.Timestamp R \<and>
   ParsedLog.Level (parse uc R) = LogEntry.Level R \<and>
   ParsedLog.Source (parse uc R) = LogEntry.Source R \<and>
   ParsedLog.Message (parse uc R) = LogEntry.Message R"
  by (simp add: parse_def)

section \<open>The ingestor's start\<close>

text \<open>
  Claim C1 says that \<open>Start\<close> fails with a bind error when a listener cannot be opened,
  and that its success means both surfaces accept. The code at a TCP port that cannot be
  bound: \<open>Start\<close> returns \<open>nil\<close>, \<open>main\<close> goes on, the TCP goroutine logs the error and
  ends, and only the HTTP surface accepts.
\<close>

theorem Start_ignores_bind_failure:
  "fst (Start \<lparr>http_listen = None, tcp_listen = Some BindError\<rparr>) = None \<and>
   main_after_Start \<lparr>http_listen = None, tcp_listen = Some BindError\<rparr> = Running \<and>
   started \<lparr>http_listen = None, tcp_listen = Some BindError\<rparr> =
     \<lparr>http_accepting = True, tcp_accepting = False, logged = [''TCP server error'']\<rparr>"
  by (simp add: Start_def main_after_Start_def started_def startHTTPServer_def startTCPServer_def)

section \<open>Analyzer: one firing rule\<close>

lemma count_of_tick: "count_of (cleanupWindow_tick a) k = 0"
  by (simp add: count_of_def cleanupWindow_tick_def)

lemma fire_total:
  assumes "bf_ok (bloomFilter a)"
  shows "\<exists>a3 al. fire e r L a = Inr (a3, al)"
proof -
  from Add_total [OF assms] obtain bf where "Add (bloomFilter a) (ruleKey r L) = Inr bf"
    by blast
  then show ?thesis
    using Contains_total [OF assms] by (simp add: fire_def Let_def)
qed

lemma fire_filter:
  assumes "fire e r L a = Inr (a3, al)"
  shows "Add (bloomFilter a) (ruleKey r L) = Inr (bloomFilter a3)" and "rules a3 = rules a"
  using assms
  by (auto simp: fire_def Let_def cleanupWindow_tick_def split: sum.splits)

lemma fire_known:
  assumes "fire e r L a = Inr (a3, al)"
  shows "\<exists>b. Contains (bloomFilter a) (ruleKey r L) = Inr b \<and> is_known_pattern al = Some b"
  using assms
  by (auto simp: fire_def Let_def is_known_pattern_def split: sum.splits)

lemma fire_count:
  assumes "fire e r L a = Inr (a3, al)"
  shows "count_in_window al = Some (count_of a3 (ruleKey r L))"
    and "count_of a3 (ruleKey r L) = (if tick_before_lock e then 0 else count_of a (ruleKey r L)) + 1"
    and "k \<noteq> ruleKey r L \<Longrightarrow> count_of a3 k = (if tick_before_lock e then 0 else count_of a k)"
  using assms
  by (auto simp: fire_def Let_def count_in_window_def count_of_def cleanupWindow_tick_def
      split: sum.splits)

lemma fire_alert:
  assumes "fire e r L a = Inr (a3, al)"
  shows "Reason al = Name r" "Log al = L" "Alert.Severity al = Rule.Severity r"
    "Alert.Timestamp al = now e" "alertKey al = ruleKey r L"
    "Metadata al ''rule_name'' = Some (MString (Name r))"
  using assms
  by (auto simp: fire_def Let_def alertKey_def ruleKey_def split: sum.splits)

lemma fire_bf_ok:
  assumes "fire e r L a = Inr (a3, al)" "bf_ok (bloomFilter a)"
  shows "bf_ok (bloomFilter a3)"
  using bf_ok_Add [OF assms(2) fire_filter(1) [OF assms(1)]] .

lemma fire_contains:
  assumes "fire e r L a = Inr (a3, al)"
  shows "Contains (bloomFilter a3) (ruleKey r L) = Inr True"
  using Contains_after_Add [OF fire_filter(1) [OF assms], of "[]"] by simp

section \<open>Analyzer: the loop of \<open>processLog\<close>\<close>

lemma built_append: "built (xs @ ys) = built xs @ built ys"
  by (induction xs rule: built.induct) simp_all

lemma sent_append: "sent (xs @ ys) = sent xs @ sent ys"
  by (induction xs rule: sent.induct) simp_all

lemma processRules_total:
  "bf_ok (bloomFilter a) \<Longrightarrow> \<exists>a' tr. processRules env n rs L a = Inr (a', tr)"
proof (induction rs arbitrary: n a)
  case Nil
  then show ?case by simp
next
  case (Cons r rs)
  show ?case
  proof (cases "Check r L")
    case False
    then show ?thesis using Cons.IH [OF Cons.prems] by simp
  next
    case True
    from fire_total [OF Cons.prems] obtain a3 al where f: "fire (env n) r L a = Inr (a3, al)"
      by blast
    from Cons.IH [OF fire_bf_ok [OF f Cons.prems]]
    obtain a' tr where "processRules env (Suc n) rs L a3 = Inr (a', tr)"
      by blast
    with True f show ?thesis
      by (cases "chosen (env n)") simp_all
  qed
qed

lemma processRules_frame:
  "processRules env n rs L a = Inr (a', tr) \<Longrightarrow>
     rules a' = rules a \<and> size_bf (bloomFilter a') = size_bf (bloomFilter a) \<and>
     hashCount (bloomFilter a') = hashCount (bloomFilter a) \<and>
     bits_grow (bits (bloomFilter a)) (bits (bloomFilter a')) \<and>
     (bf_ok (bloomFilter a) \<longrightarrow> bf_ok (bloomFilter a'))"
proof (induction rs arbitrary: n a tr)
  case Nil
  then show ?case by (simp add: bits_grow_refl)
next
  case (Cons r rs)
  show ?case
  proof (cases "Check r L")
    case False
    then show ?thesis using Cons.IH [of "Suc n" a tr] Cons.prems by simp
  next
    case True
    from Cons.prems True obtain a3 al where f: "fire (env n) r L a = Inr (a3, al)"
      by (auto split: sum.splits)
    note fr = Add_frame [OF fire_filter(1) [OF f]] fire_filter(2) [OF f]
    have ok: "bf_ok (bloomFilter a) \<longrightarrow> bf_ok (bloomFilter a3)"
      using fire_bf_ok [OF f] by blast
    show ?thesis
    proof (cases "chosen (env n)")
      case ShutdownObserved
      with Cons.prems True f have "a' = a3" by simp
      with fr ok show ?thesis by simp
    next
      case Sent
      with Cons.prems True f obtain tr' where "processRules env (Suc n) rs L a3 = Inr (a', tr')"
        by (auto split: sum.splits)
      from Cons.IH [OF this] fr ok show ?thesis
        by (auto intro: bits_grow_trans)
    qed
  qed
qed

lemma processRules_steady:
  assumes "\<forall>m. chosen (env m) = Sent"
  shows "bf_ok (bloomFilter a) \<Longrightarrow>
    \<exists>a' tr. processRules env n rs L a = Inr (a', tr) \<and> sent tr = built tr \<and>
      map (\<lambda>al. (Reason al, Alert.Severity al, Log al)) (built tr) =
        map (\<lambda>r. (Name r, Rule.Severity r, L)) (filter (\<lambda>r. Check r L) rs)"
proof (induction rs arbitrary: n a)
  case Nil
  then show ?case by simp
next
  case (Cons r rs)
  show ?case
  proof (cases "Check r L")
    case False
    then show ?thesis using Cons.IH [OF Cons.prems] by simp
  next
    case True
    from fire_total [OF Cons.prems] obtain a3 al where f: "fire (env n) r L a = Inr (a3, al)"
      by blast
    from Cons.IH [OF fire_bf_ok [OF f Cons.prems]]
    obtain a' tr where r: "processRules env (Suc n) rs L a3 = Inr (a', tr)" "sent tr = built tr"
      "map (\<lambda>al. (Reason al, Alert.Severity al, Log al)) (built tr) =
        map (\<lambda>r. (Name r, Rule.Severity r, L)) (filter (\<lambda>r. Check r L) rs)"
      by blast
    have c: "chosen (env n) = Sent" using assms by simp
    show ?thesis
      using True f r c fire_alert(1-3) [OF f]
      by (simp add: built_append sent_append)
  qed
qed

lemma Contains_loop_sets:
  "Contains_loop item js bf = Inr True \<Longrightarrow> \<forall>i \<in> set js. set_at bf item i"
  by (induction js) (auto simp: set_at_def split: sum.splits if_splits)

lemma Contains_grow:
  assumes c: "Contains bf K = Inr True"
    and fr: "size_bf bf' = size_bf bf" "hashCount bf' = hashCount bf" "bits_grow (bits bf) (bits bf')"
  shows "Contains bf' K = Inr True"
proof -
  have "\<forall>i \<in> set (seeds bf). set_at bf K i"
    using c Contains_loop_sets unfolding Contains_def by blast
  then have "\<forall>i \<in> set (seeds bf). set_at bf' K i"
    using set_at_grow fr(1,3) by blast
  moreover have "seeds bf' = seeds bf"
    using fr(2) by (simp add: seeds_def)
  ultimately show ?thesis
    unfolding Contains_def using Contains_loop_True by simp
qed

lemma keys_of_simps:
  "keys_of [] = {}"
  "keys_of (Reset # tr) = keys_of tr"
  "keys_of (Built al c # tr) = insert (alertKey al) (keys_of tr)"
  "keys_of (xs @ ys) = keys_of xs \<union> keys_of ys"
  by (auto simp: keys_of_def built_append)

lemma keys_of_seen: "keys_of ((if b then [Reset] else []) @ xs) = keys_of xs"
  by (simp add: keys_of_simps)

lemma processRules_keys:
  "processRules env n rs L a = Inr (a', tr) \<Longrightarrow>
     \<forall>K \<in> keys_of tr. Contains (bloomFilter a') K = Inr True"
proof (induction rs arbitrary: n a tr)
  case Nil
  then show ?case by (simp add: keys_of_simps)
next
  case (Cons r rs)
  show ?case
  proof (cases "Check r L")
    case False
    then show ?thesis using Cons.IH [of "Suc n" a tr] Cons.prems by simp
  next
    case True
    from Cons.prems True obtain a3 al where f: "fire (env n) r L a = Inr (a3, al)"
      by (auto split: sum.splits)
    have k: "alertKey al = ruleKey r L" by (rule fire_alert(5) [OF f])
    have here: "Contains (bloomFilter a3) (alertKey al) = Inr True"
      using fire_contains [OF f] k by simp
    show ?thesis
    proof (cases "chosen (env n)")
      case ShutdownObserved
      with Cons.prems True f have "a' = a3"
        and "tr = (if tick_before_lock (env n) then [Reset] else []) @ [Built al ShutdownObserved]"
        by simp_all
      then have "a' = a3" "keys_of tr = {alertKey al}"
        by (simp_all add: keys_of_seen keys_of_simps)
      with here show ?thesis by simp
    next
      case Sent
      with Cons.prems True f obtain tr' where
        r: "processRules env (Suc n) rs L a3 = Inr (a', tr')"
        and t: "tr = (if tick_before_lock (env n) then [Reset] else []) @ Built al Sent # tr'"
        by (auto split: sum.splits)
      from processRules_frame [OF r] have "size_bf (bloomFilter a') = size_bf (bloomFilter a3)"
        "hashCount (bloomFilter a') = hashCount (bloomFilter a3)"
        "bits_grow (bits (bloomFilter a3)) (bits (bloomFilter a'))"
        by simp_all
      from Contains_grow [OF here this] have "Contains (bloomFilter a') (alertKey al) = Inr True" .
      moreover have "keys_of tr = insert (alertKey al) (keys_of tr')"
        unfolding t by (simp add: keys_of_seen keys_of_simps)
      ultimately show ?thesis
        using Cons.IH [OF r] by simp
    qed
  qed
qed

lemma tick_frame:
  "bloomFilter (cleanupWindow_tick a) = bloomFilter a" "rules (cleanupWindow_tick a) = rules a"
  "windowCount (cleanupWindow_tick a) = Map.empty"
  by (simp_all add: cleanupWindow_tick_def)

lemma run_total: "bf_ok (bloomFilter a) \<Longrightarrow> \<exists>a' tr. run evs a = Inr (a', tr)"
proof (induction evs arbitrary: a)
  case Nil
  then show ?case by simp
next
  case (Cons ev evs)
  show ?case
  proof (cases ev)
    case (Recv L env)
    from processRules_total [OF Cons.prems] obtain a1 tr1 where
      p: "processLog env L a = Inr (a1, tr1)"
      unfolding processLog_def by blast
    then have "bf_ok (bloomFilter a1)"
      using processRules_frame Cons.prems unfolding processLog_def by blast
    from Cons.IH [OF this] obtain a2 tr2 where "run evs a1 = Inr (a2, tr2)" by blast
    with p Recv show ?thesis by simp
  next
    case Tick
    have "bf_ok (bloomFilter (cleanupWindow_tick a))"
      using Cons.prems by (simp add: tick_frame)
    from Cons.IH [OF this] Tick show ?thesis by auto
  qed
qed

lemma run_frame:
  "run evs a = Inr (a', tr) \<Longrightarrow>
     rules a' = rules a \<and> size_bf (bloomFilter a') = size_bf (bloomFilter a) \<and>
     hashCount (bloomFilter a') = hashCount (bloomFilter a) \<and>
     bits_grow (bits (bloomFilter a)) (bits (bloomFilter a')) \<and>
     (bf_ok (bloomFilter a) \<longrightarrow> bf_ok (bloomFilter a'))"
proof (induction evs arbitrary: a tr)
  case Nil
  then show ?case by (simp add: bits_grow_refl)
next
  case (Cons ev evs)
  show ?case
  proof (cases ev)
    case (Recv L env)
    with Cons.prems obtain a1 tr1 tr2 where
      p: "processLog env L a = Inr (a1, tr1)" and r: "run evs a1 = Inr (a', tr2)"
      by (auto split: sum.splits)
    from processRules_frame [OF p [unfolded processLog_def]] Cons.IH [OF r]
    show ?thesis by (auto intro: bits_grow_trans)
  next
    case Tick
    with Cons.prems obtain tr2 where r: "run evs (cleanupWindow_tick a) = Inr (a', tr2)"
      by (auto split: sum.splits)
    from Cons.IH [OF r] show ?thesis by (simp add: tick_frame)
  qed
qed

lemma run_keys:
  "run evs a = Inr (a', tr) \<Longrightarrow> \<forall>K \<in> keys_of tr. Contains (bloomFilter a') K = Inr True"
proof (induction evs arbitrary: a tr)
  case Nil
  then show ?case by (simp add: keys_of_simps)
next
  case (Cons ev evs)
  show ?case
  proof (cases ev)
    case (Recv L env)
    with Cons.prems obtain a1 tr1 tr2 where
      p: "processLog env L a = Inr (a1, tr1)" and r: "run evs a1 = Inr (a', tr2)"
      and t: "tr = tr1 @ tr2"
      by (auto split: sum.splits)
    have "\<forall>K \<in> keys_of tr1. Contains (bloomFilter a1) K = Inr True"
      using processRules_keys p unfolding processLog_def by blast
    moreover from run_frame [OF r] have "size_bf (bloomFilter a') = size_bf (bloomFilter a1)"
      "hashCount (bloomFilter a') = hashCount (bloomFilter a1)"
      "bits_grow (bits (bloomFilter a1)) (bits (bloomFilter a'))"
      by simp_all
    ultimately have "\<forall>K \<in> keys_of tr1. Contains (bloomFilter a') K = Inr True"
      using Contains_grow by blast
    with Cons.IH [OF r] t show ?thesis by (auto simp: keys_of_simps)
  next
    case Tick
    with Cons.prems obtain tr2 where r: "run evs (cleanupWindow_tick a) = Inr (a', tr2)"
      and t: "tr = Reset # tr2"
      by (auto split: sum.splits)
    from Cons.IH [OF r] t show ?thesis by (simp add: keys_of_simps)
  qed
qed

lemma NewAnalyzer_ok: "bf_ok (bloomFilter NewAnalyzer)" "rules NewAnalyzer = initializeRules"
  by (simp_all add: NewAnalyzer_def bf_ok_New)

lemma reachable_ok:
  assumes "run evs NewAnalyzer = Inr (a, tr)"
  shows "bf_ok (bloomFilter a)" "rules a = initializeRules"
  using run_frame [OF assms] NewAnalyzer_ok by simp_all

section \<open>The window reset and the filter\<close>

text \<open>
  Claim C9. A tick of the window ticker replaces the counter map by an empty one, so every
  count reads 0, and leaves the Bloom filter as it is. Nothing in a run of the analyzer
  clears the filter: from any state, through any records, ticks and shutdown choices,
  every bit that was 1 is still 1 at the end, and the key of every alert built on the
  way is still reported by \<open>Contains\<close>. A run from a filter as the constructor makes
  it does not panic.
\<close>

theorem window_reset_keeps_filter:
  "bloomFilter (cleanupWindow_tick a) = bloomFilter a \<and>
   windowCount (cleanupWindow_tick a) = Map.empty \<and>
   count_of (cleanupWindow_tick a) k = 0 \<and>
   (run evs a = Inr (a', tr) \<longrightarrow>
      bits_grow (bits (bloomFilter a)) (bits (bloomFilter a')) \<and>
      (\<forall>K \<in> keys_of tr. Contains (bloomFilter a') K = Inr True)) \<and>
   (bf_ok (bloomFilter a) \<longrightarrow> (\<exists>a1 tr1. run evs a = Inr (a1, tr1)))"
  using run_frame [of evs a a' tr] run_keys [of evs a a' tr] run_total [of a evs]
  by (simp add: tick_frame count_of_tick)

section \<open>Alerts per record\<close>

text \<open>
  Claim C5. For every parsed log \<open>L\<close> processed by the analyzer while no \<open>select\<close>
  takes the shutdown case, each rule whose predicate holds on \<open>L\<close> gives exactly one
  alert: the alerts sent are, in order, one per firing rule of the rule list (reason the
  rule's name, severity the rule's, log \<open>L\<close>), so \<open>N\<close> firing rules give \<open>N\<close> alerts,
  in the order of registration: Critical Error Level, Error Code 5xx, Suspicious
  Keywords, Error Rate Threshold. (The two hypotheses on the analyzer hold of
  \<open>NewAnalyzer\<close> and after every run from it: \<open>NewAnalyzer_ok\<close>, \<open>reachable_ok\<close>.)
\<close>

theorem one_alert_per_firing_rule:
  assumes "bf_ok (bloomFilter a)" "rules a = initializeRules" "\<forall>m. chosen (env m) = Sent"
  shows "(\<exists>a' tr. processLog env L a = Inr (a', tr) \<and> sent tr = built tr \<and>
      length (sent tr) = length (filter (\<lambda>r. Check r L) initializeRules) \<and>
      map (\<lambda>al. (Reason al, Alert.Severity al, Log al)) (sent tr) =
        map (\<lambda>r. (Name r, Rule.Severity r, L)) (filter (\<lambda>r. Check r L) initializeRules)) \<and>
    map Name initializeRules =
      [''Critical Error Level'', ''Error Code 5xx'', ''Suspicious Keywords'', ''Error Rate Threshold'']"
proof -
  from processRules_steady [OF assms(3) assms(1), of 0 "rules a" L]
  obtain a' tr where p: "processLog env L a = Inr (a', tr)" "sent tr = built tr"
    and m: "map (\<lambda>al. (Reason al, Alert.Severity al, Log al)) (built tr) =
        map (\<lambda>r. (Name r, Rule.Severity r, L)) (filter (\<lambda>r. Check r L) initializeRules)"
    unfolding processLog_def assms(2) by blast
  have "length (built tr) = length (filter (\<lambda>r. Check r L) initializeRules)"
    using arg_cong [OF m, of length] by simp
  with p m have "\<exists>a' tr. processLog env L a = Inr (a', tr) \<and> sent tr = built tr \<and>
      length (sent tr) = length (filter (\<lambda>r. Check r L) initializeRules) \<and>
      map (\<lambda>al. (Reason al, Alert.Severity al, Log al)) (sent tr) =
        map (\<lambda>r. (Name r, Rule.Severity r, L)) (filter (\<lambda>r. Check r L) initializeRules)"
    by auto
  moreover have "map Name initializeRules =
      [''Critical Error Level'', ''Error Code 5xx'', ''Suspicious Keywords'', ''Error Rate Threshold'']"
    by (simp add: initializeRules_def)
  ultimately show ?thesis by blast
qed

theorem one_alert_per_firing_rule_witness:
  "\<exists>a' tr. processLog steady S2_parsed NewAnalyzer = Inr (a', tr) \<and>
     map Reason (sent tr) = [''Error Code 5xx'', ''Error Rate Threshold'']"
proof -
  have st: "\<forall>m. chosen (steady m) = Sent"
    by (simp add: steady_def)
  from one_alert_per_firing_rule [OF NewAnalyzer_ok st, of S2_parsed]
  obtain a' tr where p: "processLog steady S2_parsed NewAnalyzer = Inr (a', tr)"
    and m: "map (\<lambda>al. (Reason al, Alert.Severity al, Log al)) (sent tr) =
        map (\<lambda>r. (Name r, Rule.Severity r, S2_parsed))
          (filter (\<lambda>r. Check r S2_parsed) initializeRules)"
    by blast
  have "map Reason (sent tr) =
      map fst (map (\<lambda>al. (Reason al, Alert.Severity al, Log al)) (sent tr))"
    by (simp add: comp_def)
  also have "\<dots> = [''Error Code 5xx'', ''Error Rate Threshold'']"
    unfolding m by (simp add: initializeRules_def S2_parsed_def suspiciousWords_def)
  finally have "map Reason (sent tr) = [''Error Code 5xx'', ''Error Rate Threshold'']" .
  with p show ?thesis by (intro exI [of _ a'] exI [of _ tr] conjI)
qed

section \<open>Shutdown during a send\<close>

text \<open>
  Claim C10. When the \<open>select\<close> that sends the alert of a firing rule takes the shutdown
  case, \<open>processLog\<close> returns at once with the state that the rule's round has built:
  the filter holds the key (\<open>Contains\<close> is true of it) and the key's window counter has
  had its increment, neither is undone, the alert is not on \<open>alertChan\<close>, and the rules
  after this one are not looked at (the result is the one of the loop over this rule
  alone, whatever rules follow).
\<close>

theorem shutdown_keeps_updates:
  assumes "Check r L" "chosen (env n) = ShutdownObserved" "bf_ok (bloomFilter a)"
  shows "\<exists>a3 al. fire (env n) r L a = Inr (a3, al) \<and>
     processRules env n (r # rest) L a =
       Inr (a3, (if tick_before_lock (env n) then [Reset] else []) @ [Built al ShutdownObserved]) \<and>
     processRules env n (r # rest) L a = processRules env n [r] L a \<and>
     sent (history (processRules env n (r # rest) L a)) = [] \<and>
     Contains (bloomFilter a3) (ruleKey r L) = Inr True \<and>
     count_of a3 (ruleKey r L) =
       (if tick_before_lock (env n) then 0 else count_of a (ruleKey r L)) + 1"
proof -
  from fire_total [OF assms(3)] obtain a3 al where f: "fire (env n) r L a = Inr (a3, al)"
    by blast
  show ?thesis
    using assms(1,2) f fire_contains [OF f] fire_count(2) [OF f]
    by (simp add: history_def)
qed

theorem shutdown_keeps_updates_witness:
  "\<exists>a3 tr. processLog halted (critical_from ''db'') NewAnalyzer = Inr (a3, tr) \<and>
     sent tr = [] \<and> length (built tr) = 1 \<and>
     Contains (bloomFilter a3) ''Critical Error Level:db'' = Inr True \<and>
     count_of a3 ''Critical Error Level:db'' = 1"
proof -
  let ?r = "\<lparr>Name = ''Critical Error Level'',
       Check = (\<lambda>l. ParsedLog.Level l = ''CRITICAL'' \<or> ParsedLog.Level l = ''FATAL''),
       Severity = ''HIGH''\<rparr>"
  have c: "Check ?r (critical_from ''db'')"
    by (simp add: critical_from_def)
  have h: "chosen (halted 0) = ShutdownObserved"
    by (simp add: halted_def)
  have k: "ruleKey ?r (critical_from ''db'') = ''Critical Error Level:db''"
    by (simp add: ruleKey_def critical_from_def)
  have z: "count_of NewAnalyzer ''Critical Error Level:db'' = 0"
    by (simp add: count_of_def NewAnalyzer_def)
  have t: "\<not> tick_before_lock (halted 0)"
    by (simp add: halted_def)
  have rs: "rules NewAnalyzer = ?r # tl initializeRules"
    by (simp add: NewAnalyzer_def initializeRules_def)
  from shutdown_keeps_updates [where env = halted and n = 0 and rest = "tl initializeRules",
      OF c h NewAnalyzer_ok(1)]
  obtain a3 al where
    p: "processRules halted 0 (?r # tl initializeRules) (critical_from ''db'') NewAnalyzer =
       Inr (a3, (if tick_before_lock (halted 0) then [Reset] else []) @ [Built al ShutdownObserved])"
    and f: "Contains (bloomFilter a3) (ruleKey ?r (critical_from ''db'')) = Inr True"
    and n: "count_of a3 (ruleKey ?r (critical_from ''db'')) =
       (if tick_before_lock (halted 0) then 0
        else count_of NewAnalyzer (ruleKey ?r (critical_from ''db''))) + 1"
    by (elim exE conjE)
  have "processLog halted (critical_from ''db'') NewAnalyzer = Inr (a3, [Built al ShutdownObserved])"
    unfolding processLog_def rs using p t by simp
  moreover have "sent [Built al ShutdownObserved] = []" "length (built [Built al ShutdownObserved]) = 1"
    by simp_all
  moreover have "Contains (bloomFilter a3) ''Critical Error Level:db'' = Inr True"
    using f unfolding k .
  moreover have "count_of a3 ''Critical Error Level:db'' = 1"
    using n t z unfolding k by simp
  ultimately show ?thesis
    by (intro exI [of _ a3] exI [of _ "[Built al ShutdownObserved]"] conjI)
qed

section \<open>Analyzer: counts along a history\<close>

lemma replay_counts_append:
  "replay_counts m (xs @ ys) = replay_counts (replay_counts m xs) ys"
proof (induction xs arbitrary: m)
  case Nil
  then show ?case by simp
next
  case (Cons x xs)
  then show ?case by (cases x) simp_all
qed

lemma counts_ok_append:
  "counts_ok m (xs @ ys) \<longleftrightarrow> counts_ok m xs \<and> counts_ok (replay_counts m xs) ys"
proof (induction xs arbitrary: m)
  case Nil
  then show ?case by simp
next
  case (Cons x xs)
  then show ?case by (cases x) simp_all
qed

lemma counts_ok_at:
  "counts_ok m (pre @ Built al c # post) \<Longrightarrow>
     count_in_window al = Some (replay_counts m pre (alertKey al) + 1)"
  by (simp add: counts_ok_append)

lemma replay_in_window:
  "m K = of_nat n \<Longrightarrow> replay_counts m pre K = of_nat (in_window K n pre)"
proof (induction pre arbitrary: m n)
  case Nil
  then show ?case by simp
next
  case (Cons x pre)
  show ?case
  proof (cases x)
    case (Built al c)
    have "(\<lambda>k. if k = alertKey al then m k + 1 else m k) K =
        of_nat (if alertKey al = K then Suc n else n)"
      using Cons.prems by (auto simp: ac_simps)
    from Cons.IH [of "\<lambda>k. if k = alertKey al then m k + 1 else m k"
        "if alertKey al = K then Suc n else n", OF this] Built
    show ?thesis by simp
  next
    case Reset
    have "(\<lambda>_. 0 :: 64 word) K = of_nat 0" by simp
    from Cons.IH [of "\<lambda>_. 0" 0, OF this] Reset show ?thesis by simp
  qed
qed

lemma in_window_append: "in_window K n (xs @ ys) = in_window K (in_window K n xs) ys"
proof (induction xs arbitrary: n)
  case Nil
  then show ?case by simp
next
  case (Cons x xs)
  then show ?case by (cases x) simp_all
qed

lemma fire_counts:
  assumes "fire e r L a = Inr (a3, al)"
  shows "count_of a3 =
    (\<lambda>k. if k = alertKey al then (if tick_before_lock e then 0 else count_of a k) + 1
         else (if tick_before_lock e then 0 else count_of a k))"
  using fire_count(2,3) [OF assms] fire_alert(5) [OF assms]
  by (intro ext) simp

lemma fire_history:
  assumes "fire e r L a = Inr (a3, al)"
  shows "counts_ok (count_of a) ((if tick_before_lock e then [Reset] else []) @ [Built al c])"
    and "replay_counts (count_of a) ((if tick_before_lock e then [Reset] else []) @ [Built al c]) =
      count_of a3"
proof -
  note fc = fire_count(1,2) [OF assms] fire_alert(5) [OF assms] fire_counts [OF assms]
  show "counts_ok (count_of a) ((if tick_before_lock e then [Reset] else []) @ [Built al c])"
    using fc by (cases "tick_before_lock e") simp_all
  show "replay_counts (count_of a) ((if tick_before_lock e then [Reset] else []) @ [Built al c]) =
      count_of a3"
    using fc by (cases "tick_before_lock e") (simp_all cong: if_cong)
qed

lemma processRules_counts:
  "processRules env n rs L a = Inr (a', tr) \<Longrightarrow>
     counts_ok (count_of a) tr \<and> replay_counts (count_of a) tr = count_of a'"
proof (induction rs arbitrary: n a tr)
  case Nil
  then show ?case by simp
next
  case (Cons r rs)
  show ?case
  proof (cases "Check r L")
    case False
    then show ?thesis using Cons.IH [of "Suc n" a tr] Cons.prems by simp
  next
    case True
    from Cons.prems True obtain a3 al where f: "fire (env n) r L a = Inr (a3, al)"
      by (auto split: sum.splits)
    let ?seen = "if tick_before_lock (env n) then [Reset] else []"
    show ?thesis
    proof (cases "chosen (env n)")
      case ShutdownObserved
      with Cons.prems True f have "a' = a3" "tr = ?seen @ [Built al ShutdownObserved]"
        by simp_all
      with fire_history [OF f, of ShutdownObserved] show ?thesis by simp
    next
      case Sent
      with Cons.prems True f obtain tr' where
        r: "processRules env (Suc n) rs L a3 = Inr (a', tr')"
        and t: "tr = (?seen @ [Built al Sent]) @ tr'"
        by (auto split: sum.splits)
      from Cons.IH [OF r] fire_history [OF f, of Sent] show ?thesis
        unfolding t counts_ok_append replay_counts_append by simp
    qed
  qed
qed

lemma run_counts:
  "run evs a = Inr (a', tr) \<Longrightarrow>
     counts_ok (count_of a) tr \<and> replay_counts (count_of a) tr = count_of a'"
proof (induction evs arbitrary: a tr)
  case Nil
  then show ?case by simp
next
  case (Cons ev evs)
  show ?case
  proof (cases ev)
    case (Recv L env)
    with Cons.prems obtain a1 tr1 tr2 where
      p: "processLog env L a = Inr (a1, tr1)" and r: "run evs a1 = Inr (a', tr2)"
      and t: "tr = tr1 @ tr2"
      by (auto split: sum.splits)
    from processRules_counts [OF p [unfolded processLog_def]] Cons.IH [OF r]
    show ?thesis
      unfolding t counts_ok_append replay_counts_append by simp
  next
    case Tick
    with Cons.prems obtain tr2 where r: "run evs (cleanupWindow_tick a) = Inr (a', tr2)"
      and t: "tr = Reset # tr2"
      by (auto split: sum.splits)
    have "count_of (cleanupWindow_tick a) = (\<lambda>_. 0)"
      by (intro ext) (simp add: count_of_tick)
    with Cons.IH [OF r] show ?thesis
      unfolding t by simp
  qed
qed

lemma sint_of_nat_64:
  "N < 2 ^ 63 \<Longrightarrow> sint (of_nat N :: 64 word) = int N"
proof -
  assume "N < 2 ^ 63"
  then have "int N < 2 ^ 63" by (metis of_nat_less_iff of_nat_numeral of_nat_power)
  then have "signed_take_bit 63 (int N) = int N"
    by (intro signed_take_bit_int_eq_self) simp_all
  then show ?thesis by (simp add: signed_of_nat)
qed

section \<open>Bloom filter: the bits at 1\<close>

lemma positions_cong:
  "size_bf bf' = size_bf bf \<Longrightarrow> hashCount bf' = hashCount bf \<Longrightarrow>
     positions bf' K = positions bf K"
  by (simp add: positions_def seeds_def)

lemma positions_lt:
  assumes "bf_ok bf" "j \<in> set (positions bf K)"
  shows "j < length (bits bf)"
proof -
  from assms(2) obtain i where j: "j = unat (hash K i mod size_bf bf)"
    by (auto simp: positions_def)
  have "hash K i mod size_bf bf < size_bf bf"
    using assms(1) by (simp add: bf_ok_def word_mod_less_divisor word_neq_0_conv)
  then show ?thesis
    using assms(1) j by (simp add: bf_ok_def word_less_nat_alt)
qed

lemma Contains_ones:
  assumes "bf_ok bf"
  shows "Contains bf K = Inr (set (positions bf K) \<subseteq> ones bf)"
  using positions_lt [OF assms, of _ K]
  by (auto simp: Contains_total [OF assms] list_all_iff ones_def)

lemma Add_loop_ones:
  "size_bf bf \<noteq> 0 \<Longrightarrow> length (bits bf) = unat (size_bf bf) \<Longrightarrow>
   Add_loop item js bf = Inr bf' \<Longrightarrow>
     ones bf' = ones bf \<union> (\<lambda>i. unat (hash item i mod size_bf bf)) ` set js"
proof (induction js arbitrary: bf)
  case Nil
  then show ?case by simp
next
  case (Cons i rest)
  let ?j = "unat (hash item i mod size_bf bf)"
  let ?b1 = "bf\<lparr>bits := (bits bf)[?j := True]\<rparr>"
  have s: "slot bf item i = Inr ?j"
    using slot_total [OF Cons.prems(1,2)] .
  then have lt: "?j < length (bits bf)"
    by (auto simp: slot_def Let_def split: if_splits)
  from Cons.prems(3) s have run: "Add_loop item rest ?b1 = Inr bf'"
    by simp
  have "ones bf' = ones ?b1 \<union> (\<lambda>i. unat (hash item i mod size_bf ?b1)) ` set rest"
    using Cons.prems(1,2) by (intro Cons.IH [OF _ _ run]) simp_all
  moreover have "ones ?b1 = insert ?j (ones bf)"
    using lt by (auto simp: ones_def nth_list_update)
  ultimately show ?case by auto
qed

lemma Add_ones:
  assumes "bf_ok bf" "Add bf K = Inr bf'"
  shows "ones bf' = ones bf \<union> set (positions bf K)"
  using assms Add_loop_ones [of bf K "seeds bf" bf']
  by (simp add: bf_ok_def Add_def positions_def)

lemma ones_New: "ones (NewBloomFilter sz hc) = {}"
  by (auto simp: ones_def NewBloomFilter_def)

section \<open>Analyzer: the known-pattern flag along a history\<close>

lemma known_ok_append:
  "known_ok pos B (xs @ ys) \<longleftrightarrow>
     known_ok pos B xs \<and> known_ok pos (B \<union> \<Union> (pos ` keys_of xs)) ys"
proof (induction xs arbitrary: B)
  case Nil
  then show ?case by (simp add: keys_of_simps)
next
  case (Cons x xs)
  then show ?case by (cases x) (simp_all add: keys_of_simps Un_assoc)
qed

lemma known_ok_at:
  "known_ok pos B (pre @ Built al c # post) \<Longrightarrow>
     is_known_pattern al = Some (pos (alertKey al) \<subseteq> B \<union> \<Union> (pos ` keys_of pre))"
  by (simp add: known_ok_append)

lemma fire_ones:
  assumes "fire e r L a = Inr (a3, al)" "bf_ok (bloomFilter a)"
  shows "is_known_pattern al = Some (set (positions (bloomFilter a) (alertKey al)) \<subseteq> ones (bloomFilter a))"
    and "ones (bloomFilter a3) = ones (bloomFilter a) \<union> set (positions (bloomFilter a) (alertKey al))"
    and "positions (bloomFilter a3) = positions (bloomFilter a)"
proof -
  note k = fire_alert(5) [OF assms(1)]
  show "is_known_pattern al = Some (set (positions (bloomFilter a) (alertKey al)) \<subseteq> ones (bloomFilter a))"
    using fire_known [OF assms(1)] Contains_ones [OF assms(2)] k by auto
  show "ones (bloomFilter a3) = ones (bloomFilter a) \<union> set (positions (bloomFilter a) (alertKey al))"
    using Add_ones [OF assms(2) fire_filter(1) [OF assms(1)]] k by simp
  show "positions (bloomFilter a3) = positions (bloomFilter a)"
    using Add_frame [OF fire_filter(1) [OF assms(1)]] by (intro ext positions_cong) simp_all
qed

lemma known_ok_seen:
  "known_ok pos B ((if b then [Reset] else []) @ tr) = known_ok pos B tr"
  by simp

lemma processRules_known:
  "processRules env n rs L a = Inr (a', tr) \<Longrightarrow> bf_ok (bloomFilter a) \<Longrightarrow>
     known_ok (\<lambda>K. set (positions (bloomFilter a) K)) (ones (bloomFilter a)) tr \<and>
     ones (bloomFilter a') =
       ones (bloomFilter a) \<union> \<Union> ((\<lambda>K. set (positions (bloomFilter a) K)) ` keys_of tr)"
proof (induction rs arbitrary: n a tr)
  case Nil
  then show ?case by (simp add: keys_of_simps)
next
  case (Cons r rs)
  show ?case
  proof (cases "Check r L")
    case False
    then show ?thesis using Cons.IH [of "Suc n" a tr] Cons.prems by simp
  next
    case True
    from Cons.prems True obtain a3 al where f: "fire (env n) r L a = Inr (a3, al)"
      by (auto split: sum.splits)
    note fo = fire_ones [OF f Cons.prems(2)]
    let ?seen = "if tick_before_lock (env n) then [Reset] else []"
    show ?thesis
    proof (cases "chosen (env n)")
      case ShutdownObserved
      with Cons.prems True f have "a' = a3" "tr = ?seen @ [Built al ShutdownObserved]"
        by simp_all
      with fo show ?thesis
        by (simp add: known_ok_seen keys_of_seen keys_of_simps)
    next
      case Sent
      with Cons.prems True f obtain tr' where
        r: "processRules env (Suc n) rs L a3 = Inr (a', tr')"
        and t: "tr = ?seen @ Built al Sent # tr'"
        by (auto split: sum.splits)
      from Cons.IH [OF r fire_bf_ok [OF f Cons.prems(2)]] fo show ?thesis
        unfolding t by (simp add: known_ok_seen keys_of_seen keys_of_simps Un_assoc)
    qed
  qed
qed

lemma run_known:
  "run evs a = Inr (a', tr) \<Longrightarrow> bf_ok (bloomFilter a) \<Longrightarrow>
     known_ok (\<lambda>K. set (positions (bloomFilter a) K)) (ones (bloomFilter a)) tr \<and>
     ones (bloomFilter a') =
       ones (bloomFilter a) \<union> \<Union> ((\<lambda>K. set (positions (bloomFilter a) K)) ` keys_of tr)"
proof (induction evs arbitrary: a tr)
  case Nil
  then show ?case by (simp add: keys_of_simps)
next
  case (Cons ev evs)
  show ?case
  proof (cases ev)
    case (Recv L env)
    with Cons.prems obtain a1 tr1 tr2 where
      p: "processRules env 0 (rules a) L a = Inr (a1, tr1)" and r: "run evs a1 = Inr (a', tr2)"
      and t: "tr = tr1 @ tr2"
      by (auto simp: processLog_def split: sum.splits)
    from processRules_frame [OF p] Cons.prems(2)
    have ok: "bf_ok (bloomFilter a1)" and "positions (bloomFilter a1) = positions (bloomFilter a)"
      by (auto intro!: positions_cong)
    with processRules_known [OF p Cons.prems(2)] Cons.IH [OF r ok] show ?thesis
      unfolding t known_ok_append by (simp add: keys_of_simps Un_assoc)
  next
    case Tick
    with Cons.prems obtain tr2 where r: "run evs (cleanupWindow_tick a) = Inr (a', tr2)"
      and t: "tr = Reset # tr2"
      by (auto split: sum.splits)
    from Cons.IH [OF r] Cons.prems(2) show ?thesis
      unfolding t by (simp add: tick_frame keys_of_simps)
  qed
qed

section \<open>Scenarios: evaluation\<close>

lemma seeds_3: "hashCount bf = 3 \<Longrightarrow> seeds bf = [0, 1, 2]"
  by (simp add: seeds_def upt_rec)

lemma positions_New:
  "positions (bloomFilter NewAnalyzer) K =
     [unat (hash K 0 mod 100000), unat (hash K 1 mod 100000), unat (hash K 2 mod 100000)]"
  by (simp add: positions_def NewAnalyzer_def NewBloomFilter_def seeds_3)

lemma hash_critical_db:
  "hash ''Critical Error Level:db'' 0 mod 100000 = 70724"
  "hash ''Critical Error Level:db'' 1 mod 100000 = 98935"
  "hash ''Critical Error Level:db'' 2 mod 100000 = 27146"
  by code_simp+

lemma hash_critical_svc:
  "hash ''Critical Error Level:svc-117402'' 0 mod 100000 = 70724"
  "hash ''Critical Error Level:svc-117402'' 1 mod 100000 = 98935"
  "hash ''Critical Error Level:svc-117402'' 2 mod 100000 = 27146"
  by code_simp+

lemma hash_suspicious_db:
  "hash ''Suspicious Keywords:db'' 0 mod 100000 = 96630"
  by code_simp

lemma positions_critical_db:
  "positions (bloomFilter NewAnalyzer) ''Critical Error Level:db'' = [70724, 98935, 27146]"
  by (simp add: positions_New hash_critical_db)

lemma positions_critical_svc:
  "positions (bloomFilter NewAnalyzer) ''Critical Error Level:svc-117402'' = [70724, 98935, 27146]"
  by (simp add: positions_New hash_critical_svc)

lemma positions_New_not_empty: "set (positions (bloomFilter NewAnalyzer) K) \<noteq> {}"
  by (simp add: positions_New)

lemma ones_NewAnalyzer: "ones (bloomFilter NewAnalyzer) = {}"
  by (simp add: NewAnalyzer_def ones_New)

lemma count_of_NewAnalyzer: "count_of NewAnalyzer K = 0"
  by (simp add: count_of_def NewAnalyzer_def)

lemma processLog_critical:
  assumes "bf_ok (bloomFilter a)" "rules a = initializeRules"
  shows "\<exists>a3 al. processLog steady (critical_from s) a = Inr (a3, [Built al Sent]) \<and>
     alertKey al = ''Critical Error Level:'' @ s \<and>
     rules a3 = initializeRules \<and> bf_ok (bloomFilter a3)"
proof -
  let ?r = "\<lparr>Name = ''Critical Error Level'',
       Check = (\<lambda>l. ParsedLog.Level l = ''CRITICAL'' \<or> ParsedLog.Level l = ''FATAL''),
       Severity = ''HIGH''\<rparr>"
  from fire_total [OF assms(1)] obtain a3 al where
    f: "fire (steady 0) ?r (critical_from s) a = Inr (a3, al)"
    by blast
  have "processLog steady (critical_from s) a = Inr (a3, [Built al Sent])"
    unfolding processLog_def assms(2)
    using f by (simp add: initializeRules_def critical_from_def steady_def suspiciousWords_def)
  moreover have "alertKey al = ''Critical Error Level:'' @ s"
    using fire_alert(5) [OF f] by (simp add: ruleKey_def critical_from_def)
  moreover have "rules a3 = initializeRules" "bf_ok (bloomFilter a3)"
    using fire_filter(2) [OF f] fire_bf_ok [OF f assms(1)] assms(2) by simp_all
  ultimately show ?thesis by blast
qed

lemma run_two_critical:
  "\<exists>a2 al1 al2.
     run [Recv (critical_from s1) steady, Recv (critical_from s2) steady] NewAnalyzer =
       Inr (a2, [Built al1 Sent, Built al2 Sent]) \<and>
     alertKey al1 = ''Critical Error Level:'' @ s1 \<and>
     alertKey al2 = ''Critical Error Level:'' @ s2"
proof -
  from processLog_critical [OF NewAnalyzer_ok, of s1] obtain a1 al1 where
    p1: "processLog steady (critical_from s1) NewAnalyzer = Inr (a1, [Built al1 Sent])"
    and k1: "alertKey al1 = ''Critical Error Level:'' @ s1"
    and ok: "bf_ok (bloomFilter a1)" "rules a1 = initializeRules"
    by blast
  from processLog_critical [OF ok, of s2] obtain a2 al2 where
    p2: "processLog steady (critical_from s2) a1 = Inr (a2, [Built al2 Sent])"
    and k2: "alertKey al2 = ''Critical Error Level:'' @ s2"
    by blast
  have "run [Recv (critical_from s1) steady, Recv (critical_from s2) steady] NewAnalyzer =
       Inr (a2, [Built al1 Sent, Built al2 Sent])"
    using p1 p2 by simp
  with k1 k2 show ?thesis by blast
qed

lemma fire_first_rule:
  "\<exists>a3 al3. fire (steady 0) (hd initializeRules) (critical_from ''api'') NewAnalyzer = Inr (a3, al3)"
  using fire_total [OF NewAnalyzer_ok(1)] by blast

text \<open>
  Scenario S4 for the window reset: a record, then a tick. The filter still holds the key,
  the key's count is 0.
\<close>

theorem window_reset_keeps_filter_witness:
  "\<exists>a' tr. run [Recv (critical_from ''db'') steady, Tick] NewAnalyzer = Inr (a', tr) \<and>
     keys_of tr = {''Critical Error Level:db''} \<and>
     bits_grow (bits (bloomFilter NewAnalyzer)) (bits (bloomFilter a')) \<and>
     Contains (bloomFilter a') ''Critical Error Level:db'' = Inr True \<and>
     count_of a' ''Critical Error Level:db'' = 0"
proof -
  let ?evs = "[Recv (critical_from ''db'') steady, Tick]"
  from processLog_critical [OF NewAnalyzer_ok, of "''db''"] obtain a1 al where
    p: "processLog steady (critical_from ''db'') NewAnalyzer = Inr (a1, [Built al Sent])"
    and k: "alertKey al = ''Critical Error Level:'' @ ''db''"
    by blast
  have r: "run ?evs NewAnalyzer = Inr (cleanupWindow_tick a1, [Built al Sent, Reset])"
    using p by simp
  have ks: "keys_of [Built al Sent, Reset] = {''Critical Error Level:db''}"
    using k by (simp add: keys_of_simps)
  note th = window_reset_keeps_filter [where a = NewAnalyzer and evs = ?evs
      and a' = "cleanupWindow_tick a1" and tr = "[Built al Sent, Reset]"]
  from th [THEN conjunct2, THEN conjunct2, THEN conjunct2, THEN conjunct2, THEN mp,
      OF NewAnalyzer_ok(1)]
  have "\<exists>a2 tr2. run ?evs NewAnalyzer = Inr (a2, tr2)" .
  from th [THEN conjunct2, THEN conjunct2, THEN conjunct2, THEN conjunct1, THEN mp, OF r]
  have g: "bits_grow (bits (bloomFilter NewAnalyzer)) (bits (bloomFilter (cleanupWindow_tick a1)))"
    and c: "\<forall>K \<in> keys_of [Built al Sent, Reset].
      Contains (bloomFilter (cleanupWindow_tick a1)) K = Inr True"
    by simp_all
  from c have c': "Contains (bloomFilter (cleanupWindow_tick a1)) ''Critical Error Level:db'' = Inr True"
    unfolding ks by simp
  from window_reset_keeps_filter [where a = a1 and k = "''Critical Error Level:db''",
      THEN conjunct2, THEN conjunct2, THEN conjunct1]
  have z: "count_of (cleanupWindow_tick a1) ''Critical Error Level:db'' = 0" .
  from r ks g c' z show ?thesis
    by (intro exI [of _ "cleanupWindow_tick a1"] exI [of _ "[Built al Sent, Reset]"] conjI)
qed

section \<open>The known-pattern flag\<close>

text \<open>
  Claim C2, as the code has it. Take any run of the analyzer from a filter as the
  constructor makes it, and any alert \<open>al\<close> in its history, with key
  \<open>K = ruleName:source\<close>. Its \<open>is_known_pattern\<close> is true exactly when every bit
  position of \<open>K\<close> was at 1 in the filter at the start or is a bit position of the key
  of an earlier alert of the history (sent or abandoned). So every alert for \<open>K\<close> that
  comes after an alert for \<open>K\<close> carries \<open>true\<close> (the filter has no false negative), and
  on a new analyzer an alert with no alert before it carries \<open>false\<close>. The sample is
  taken before the add: the flag is what \<open>Contains\<close> says of the filter before the
  round, and \<open>Contains\<close> is true of the filter after it.
\<close>

theorem known_pattern_flag:
  "(run evs a = Inr (a', pre @ Built al c # post) \<and> bf_ok (bloomFilter a) \<longrightarrow>
      is_known_pattern al =
        Some (set (positions (bloomFilter a) (alertKey al)) \<subseteq>
          ones (bloomFilter a) \<union> \<Union> ((\<lambda>K. set (positions (bloomFilter a) K)) ` keys_of pre)) \<and>
      (alertKey al \<in> keys_of pre \<longrightarrow> is_known_pattern al = Some True)) \<and>
   (run evs NewAnalyzer = Inr (a', pre @ Built al c # post) \<longrightarrow>
      is_known_pattern al =
        Some (set (positions (bloomFilter NewAnalyzer) (alertKey al)) \<subseteq>
          \<Union> ((\<lambda>K. set (positions (bloomFilter NewAnalyzer) K)) ` keys_of pre)) \<and>
      (keys_of pre = {} \<longrightarrow> is_known_pattern al = Some False)) \<and>
   (fire e r L a = Inr (a3, al3) \<longrightarrow>
      (\<exists>b. Contains (bloomFilter a) (ruleKey r L) = Inr b \<and> is_known_pattern al3 = Some b) \<and>
      Contains (bloomFilter a3) (ruleKey r L) = Inr True)"
proof (intro conjI impI)
  assume h: "run evs a = Inr (a', pre @ Built al c # post) \<and> bf_ok (bloomFilter a)"
  then have r: "run evs a = Inr (a', pre @ Built al c # post)" and ok: "bf_ok (bloomFilter a)"
    by simp_all
  from run_known [OF r ok]
  have "known_ok (\<lambda>K. set (positions (bloomFilter a) K)) (ones (bloomFilter a))
      (pre @ Built al c # post)"
    by simp
  from known_ok_at [OF this]
  show A: "is_known_pattern al =
        Some (set (positions (bloomFilter a) (alertKey al)) \<subseteq>
          ones (bloomFilter a) \<union> \<Union> ((\<lambda>K. set (positions (bloomFilter a) K)) ` keys_of pre))" .
  assume "alertKey al \<in> keys_of pre"
  then have "set (positions (bloomFilter a) (alertKey al)) \<subseteq>
      ones (bloomFilter a) \<union> \<Union> ((\<lambda>K. set (positions (bloomFilter a) K)) ` keys_of pre)"
    by auto
  with A show "is_known_pattern al = Some True" by simp
next
  assume r: "run evs NewAnalyzer = Inr (a', pre @ Built al c # post)"
  from run_known [OF r NewAnalyzer_ok(1)]
  have "known_ok (\<lambda>K. set (positions (bloomFilter NewAnalyzer) K)) (ones (bloomFilter NewAnalyzer))
      (pre @ Built al c # post)"
    by simp
  from known_ok_at [OF this]
  show N: "is_known_pattern al =
        Some (set (positions (bloomFilter NewAnalyzer) (alertKey al)) \<subseteq>
          \<Union> ((\<lambda>K. set (positions (bloomFilter NewAnalyzer) K)) ` keys_of pre))"
    by (simp add: ones_NewAnalyzer)
  assume "keys_of pre = {}"
  with N positions_New_not_empty [of "alertKey al"]
  show "is_known_pattern al = Some False"
    by simp
next
  assume f: "fire e r L a = Inr (a3, al3)"
  from fire_known [OF f]
  show "\<exists>b. Contains (bloomFilter a) (ruleKey r L) = Inr b \<and> is_known_pattern al3 = Some b" .
  from fire_contains [OF f]
  show "Contains (bloomFilter a3) (ruleKey r L) = Inr True" .
qed

theorem known_pattern_flag_witness:
  "\<exists>a2 al1 al2 a3 al3.
     run [Recv (critical_from ''api'') steady, Recv (critical_from ''api'') steady] NewAnalyzer =
       Inr (a2, [Built al1 Sent, Built al2 Sent]) \<and>
     is_known_pattern al1 = Some False \<and> is_known_pattern al2 = Some True \<and>
     fire (steady 0) (hd initializeRules) (critical_from ''api'') NewAnalyzer = Inr (a3, al3) \<and>
     is_known_pattern al3 = Some False \<and>
     Contains (bloomFilter a3) ''Critical Error Level:api'' = Inr True"
proof -
  let ?evs = "[Recv (critical_from ''api'') steady, Recv (critical_from ''api'') steady]"
  from run_two_critical [of "''api''" "''api''"] obtain a2 al1 al2 where
    r: "run ?evs NewAnalyzer = Inr (a2, [Built al1 Sent, Built al2 Sent])"
    and k: "alertKey al1 = ''Critical Error Level:api''" "alertKey al2 = ''Critical Error Level:api''"
    by auto
  have r1: "run ?evs NewAnalyzer = Inr (a2, [] @ Built al1 Sent # [Built al2 Sent])"
    using r by simp
  have r2: "run ?evs NewAnalyzer = Inr (a2, [Built al1 Sent] @ Built al2 Sent # [])"
    using r by simp
  have b1: "is_known_pattern al1 = Some False"
    using known_pattern_flag [where evs = ?evs and a' = a2 and pre = "[]" and al = al1
        and c = Sent and post = "[Built al2 Sent]"] r1
    by (simp add: keys_of_simps positions_New del: run.simps)
  have b2: "is_known_pattern al2 = Some True"
    using known_pattern_flag [where evs = ?evs and a = NewAnalyzer and a' = a2
        and pre = "[Built al1 Sent]" and al = al2 and c = Sent and post = "[]"]
      r2 k NewAnalyzer_ok(1)
    by (simp add: keys_of_simps del: run.simps)
  from fire_first_rule obtain a3 al3 where
    f: "fire (steady 0) (hd initializeRules) (critical_from ''api'') NewAnalyzer = Inr (a3, al3)"
    by blast
  have kk: "ruleKey (hd initializeRules) (critical_from ''api'') = ''Critical Error Level:api''"
    by (simp add: ruleKey_def initializeRules_def critical_from_def)
  have c0: "Contains (bloomFilter NewAnalyzer) ''Critical Error Level:api'' = Inr False"
    using Contains_ones [OF NewAnalyzer_ok(1), of "''Critical Error Level:api''"]
      positions_New_not_empty [of "''Critical Error Level:api''"]
    by (simp add: ones_NewAnalyzer)
  from known_pattern_flag [where a = NewAnalyzer and e = "steady 0" and r = "hd initializeRules"
      and L = "critical_from ''api''" and ?a3.0 = a3 and ?al3.0 = al3,
      THEN conjunct2, THEN conjunct2, THEN mp, OF f]
  have "(\<exists>b. Contains (bloomFilter NewAnalyzer) (ruleKey (hd initializeRules) (critical_from ''api'')) = Inr b \<and>
          is_known_pattern al3 = Some b) \<and>
      Contains (bloomFilter a3) (ruleKey (hd initializeRules) (critical_from ''api'')) = Inr True" .
  then have "is_known_pattern al3 = Some False \<and>
      Contains (bloomFilter a3) ''Critical Error Level:api'' = Inr True"
    unfolding kk using c0 by auto
  with r b1 b2 f show ?thesis
    by (intro exI [of _ a2] exI [of _ al1] exI [of _ al2] exI [of _ a3] exI [of _ al3])
      (simp del: run.simps)
qed

text \<open>
  Claim C2 as the specification states it fails: the first alert for the key
  \<open>Critical Error Level:db\<close> carries \<open>is_known_pattern = true\<close> when a record from the
  source \<open>svc-117402\<close> came before it, since the two keys have the same three bit
  positions (70724, 98935, 27146) in the filter of 100000 bits.
\<close>

theorem first_alert_known_counterexample:
  "flags (history (run [Recv (critical_from ''svc-117402'') steady,
                        Recv (critical_from ''db'') steady] NewAnalyzer)) =
     [(''Critical Error Level:svc-117402'', Some False), (''Critical Error Level:db'', Some True)]"
proof -
  from run_two_critical [of "''svc-117402''" "''db''"] obtain a2 al1 al2 where
    r: "run [Recv (critical_from ''svc-117402'') steady, Recv (critical_from ''db'') steady] NewAnalyzer =
       Inr (a2, [Built al1 Sent, Built al2 Sent])"
    and k: "alertKey al1 = ''Critical Error Level:svc-117402''" "alertKey al2 = ''Critical Error Level:db''"
    by auto
  from run_known [OF r NewAnalyzer_ok(1)]
  have "is_known_pattern al1 = Some False" "is_known_pattern al2 = Some True"
    by (simp_all add: k ones_NewAnalyzer positions_critical_db positions_critical_svc)
  with k show ?thesis
    unfolding r by (simp add: flags_def history_def)
qed

section \<open>Parser: the keyword loop\<close>

lemma keywords_loop_eq:
  "keywords_loop uc ws kws =
     kws @ filter (\<lambda>w. length w > 3) (map (\<lambda>w. ToLower uc (Trim w ''.,;:!?'')) ws)"
  by (induction ws arbitrary: kws) (simp_all add: Let_def)

lemma fields_ascii_chars:
  "w \<in> set (fields_ascii cur s) \<Longrightarrow> set w \<subseteq> set cur \<union> set s"
proof (induction s arbitrary: cur)
  case Nil
  then show ?case by (auto split: if_splits)
next
  case (Cons c cs)
  then show ?case by (fastforce split: if_splits)
qed

lemma isASCII_iff: "isASCII s \<longleftrightarrow> (\<forall>c \<in> set s. (of_char c :: nat) < 128)"
  by (simp add: isASCII_def list_all_iff)

lemma Fields_ascii: "isASCII s \<Longrightarrow> w \<in> set (Fields uc s) \<Longrightarrow> isASCII w"
  using fields_ascii_chars [of w "[]" s] by (auto simp: Fields_def isASCII_iff)

lemma Trim_subset: "set (Trim w cs) \<subseteq> set w"
proof -
  have "set (dropWhile P xs) \<subseteq> set xs" for P and xs :: string
    by (metis set_dropWhileD subsetI)
  then show ?thesis
    unfolding Trim_def trimLeft_def trimRight_def
    by (metis (no_types, lifting) set_rev subset_trans)
qed

lemma lower_byte_cutset: "lower_byte c \<in> set ''.,;:!?'' \<longleftrightarrow> c \<in> set ''.,;:!?''"
proof (cases "65 \<le> (of_char c :: nat) \<and> (of_char c :: nat) \<le> 90")
  case False
  then show ?thesis by (auto simp: lower_byte_def Let_def)
next
  case True
  have "(of_char (char_of (of_char c + 32 :: nat)) :: nat) = of_char c + 32"
    using True by (simp add: of_char_of)
  then have "(of_char (lower_byte c) :: nat) \<in> {97..122}"
    using True by (simp add: lower_byte_def Let_def)
  then have "lower_byte c \<notin> set ''.,;:!?''"
    by auto
  moreover have "c \<notin> set ''.,;:!?''"
    using True by auto
  ultimately show ?thesis by simp
qed

lemma dropWhile_map_inv:
  "(\<And>c. P (f c) = P c) \<Longrightarrow> dropWhile P (map f w) = map f (dropWhile P w)"
  by (induction w) simp_all

lemma Trim_map_inv:
  assumes "\<And>c. (f c \<in> set cs) = (c \<in> set cs)"
  shows "Trim (map f w) cs = map f (Trim w cs)"
proof -
  have d: "dropWhile (\<lambda>c. c \<in> set cs) (map f xs) = map f (dropWhile (\<lambda>c. c \<in> set cs) xs)" for xs
    using assms by (intro dropWhile_map_inv) simp
  show ?thesis
    unfolding Trim_def trimLeft_def trimRight_def
    by (simp add: rev_map d)
qed

lemma Trim_lower:
  "Trim (map lower_byte w) ''.,;:!?'' = map lower_byte (Trim w ''.,;:!?'')"
  by (rule Trim_map_inv) (rule lower_byte_cutset)

lemma ToLower_Trim_ascii:
  assumes "isASCII w"
  shows "ToLower uc (Trim w ''.,;:!?'') = Trim (ToLower uc w) ''.,;:!?''"
proof -
  have "isASCII (Trim w ''.,;:!?'')"
    using assms Trim_subset [of w "''.,;:!?''"] by (auto simp: isASCII_iff)
  then show ?thesis
    using assms by (simp add: ToLower_def Trim_lower)
qed

lemma Trim_both_ends:
  "\<exists>pre suf. w = pre @ Trim w cs @ suf \<and> set pre \<subseteq> set cs \<and> set suf \<subseteq> set cs \<and>
     (Trim w cs \<noteq> [] \<longrightarrow> hd (Trim w cs) \<notin> set cs \<and> last (Trim w cs) \<notin> set cs)"
proof -
  let ?P = "\<lambda>c. c \<in> set cs"
  let ?t = "trimRight w cs"
  let ?suf = "rev (takeWhile ?P (rev w))"
  let ?pre = "takeWhile ?P ?t"
  have "?t @ ?suf = rev (takeWhile ?P (rev w) @ dropWhile ?P (rev w))"
    unfolding trimRight_def by (simp only: rev_append)
  also have "\<dots> = w"
    by (simp only: takeWhile_dropWhile_id rev_rev_ident)
  finally have w: "w = ?t @ ?suf"
    by (rule sym)
  have t: "?t = ?pre @ Trim w cs"
    by (simp add: Trim_def trimLeft_def)
  have suf: "set ?suf \<subseteq> set cs"
    by (auto dest: set_takeWhileD)
  have pre: "set ?pre \<subseteq> set cs"
    by (auto dest: set_takeWhileD)
  have ends: "hd (Trim w cs) \<notin> set cs \<and> last (Trim w cs) \<notin> set cs" if ne: "Trim w cs \<noteq> []"
  proof -
    have "hd (Trim w cs) \<notin> set cs"
      using ne hd_dropWhile [of ?P ?t] by (simp add: Trim_def trimLeft_def)
    moreover have "?t \<noteq> []"
      using ne t by auto
    then have "dropWhile ?P (rev w) \<noteq> []"
      by (simp add: trimRight_def)
    then have "hd (dropWhile ?P (rev w)) \<notin> set cs"
      using hd_dropWhile [of ?P "rev w"] by simp
    then have "last ?t \<notin> set cs"
      using \<open>dropWhile ?P (rev w) \<noteq> []\<close> by (simp add: trimRight_def last_rev)
    moreover have "last ?t = last (Trim w cs)"
      using ne t by (metis last_appendR)
    ultimately show ?thesis by simp
  qed
  have "w = (?pre @ Trim w cs) @ ?suf"
    by (subst t [symmetric]) (rule w)
  then have "w = ?pre @ Trim w cs @ ?suf"
    by (simp only: append_assoc)
  with pre suf ends show ?thesis
    by blast
qed

section \<open>The keyword list\<close>

text \<open>
  Claim C3, as the code has it. For every raw log, \<open>keywords\<close> is the list obtained by
  splitting the message on whitespace, removing from each token the punctuation of the
  set \<open>. , ; : ! ?\<close> at both ends (the leading bytes as well as the trailing ones),
  lowercasing it, and keeping exactly the tokens then longer than 3 bytes, in order and
  with duplicates. What \<open>Trim\<close> returns is the token without a prefix and a suffix made
  of punctuation of the set, and it neither starts nor ends with such a byte. On an
  ASCII message, lowercasing first and trimming after gives the same list.
\<close>

theorem keywords_trim_both_ends:
  "Keywords (parse uc R) =
     filter (\<lambda>w. length w > 3)
       (map (\<lambda>w. ToLower uc (Trim w ''.,;:!?'')) (Fields uc (LogEntry.Message R))) \<and>
   (\<exists>pre suf. w = pre @ Trim w cs @ suf \<and> set pre \<subseteq> set cs \<and> set suf \<subseteq> set cs \<and>
     (Trim w cs \<noteq> [] \<longrightarrow> hd (Trim w cs) \<notin> set cs \<and> last (Trim w cs) \<notin> set cs)) \<and>
   (isASCII (LogEntry.Message R) \<longrightarrow>
      Keywords (parse uc R) =
        filter (\<lambda>w. length w > 3)
          (map (\<lambda>w. Trim (ToLower uc w) ''.,;:!?'') (Fields uc (LogEntry.Message R))))"
proof (intro conjI impI)
  show k: "Keywords (parse uc R) =
     filter (\<lambda>w. length w > 3)
       (map (\<lambda>w. ToLower uc (Trim w ''.,;:!?'')) (Fields uc (LogEntry.Message R)))"
    by (simp add: parse_def keywords_loop_eq)
  show "\<exists>pre suf. w = pre @ Trim w cs @ suf \<and> set pre \<subseteq> set cs \<and> set suf \<subseteq> set cs \<and>
     (Trim w cs \<noteq> [] \<longrightarrow> hd (Trim w cs) \<notin> set cs \<and> last (Trim w cs) \<notin> set cs)"
    by (rule Trim_both_ends)
  assume "isASCII (LogEntry.Message R)"
  then have "map (\<lambda>w. ToLower uc (Trim w ''.,;:!?'')) (Fields uc (LogEntry.Message R)) =
      map (\<lambda>w. Trim (ToLower uc w) ''.,;:!?'') (Fields uc (LogEntry.Message R))"
    by (intro map_cong refl ToLower_Trim_ascii) (rule Fields_ascii)
  with k show "Keywords (parse uc R) =
        filter (\<lambda>w. length w > 3)
          (map (\<lambda>w. Trim (ToLower uc w) ''.,;:!?'') (Fields uc (LogEntry.Message R)))"
    by simp
qed

theorem keywords_trim_both_ends_witness:
  "isASCII (LogEntry.Message retry_entry) \<and>
   Keywords (parse unicode_unused retry_entry) = [''connection'', ''lost'', ''retrying''] \<and>
   Trim ''...retrying'' ''.,;:!?'' = ''retrying'' \<and>
   hd (Trim ''...retrying'' ''.,;:!?'') \<notin> set ''.,;:!?'' \<and>
   last (Trim ''...retrying'' ''.,;:!?'') \<notin> set ''.,;:!?''"
proof -
  note th = keywords_trim_both_ends [of unicode_unused retry_entry "''...retrying''" "''.,;:!?''"]
  have a: "isASCII (LogEntry.Message retry_entry)"
    by code_simp
  from th [THEN conjunct2, THEN conjunct2, THEN mp, OF a]
  have "Keywords (parse unicode_unused retry_entry) =
        filter (\<lambda>w. length w > 3)
          (map (\<lambda>w. Trim (ToLower unicode_unused w) ''.,;:!?'')
            (Fields unicode_unused (LogEntry.Message retry_entry)))" .
  also have "\<dots> = [''connection'', ''lost'', ''retrying'']"
    by code_simp
  finally have k: "Keywords (parse unicode_unused retry_entry) = [''connection'', ''lost'', ''retrying'']" .
  have t: "Trim ''...retrying'' ''.,;:!?'' = ''retrying''"
    by code_simp
  then have ne: "Trim ''...retrying'' ''.,;:!?'' \<noteq> []"
    by simp
  from th [THEN conjunct2, THEN conjunct1]
  have "Trim ''...retrying'' ''.,;:!?'' \<noteq> [] \<longrightarrow>
       hd (Trim ''...retrying'' ''.,;:!?'') \<notin> set ''.,;:!?'' \<and>
       last (Trim ''...retrying'' ''.,;:!?'') \<notin> set ''.,;:!?''"
    by (elim exE conjE)
  from this ne have "hd (Trim ''...retrying'' ''.,;:!?'') \<notin> set ''.,;:!?'' \<and>
       last (Trim ''...retrying'' ''.,;:!?'') \<notin> set ''.,;:!?''"
    by (rule mp)
  with a k t show ?thesis
    by (intro conjI) (erule conjunct1 conjunct2 | assumption)+
qed

text \<open>
  Claim C3 as the specification states it (trailing punctuation only) fails on the
  message \<open>connection lost ...retrying\<close>: the parser's keyword is \<open>retrying\<close>, the
  sentence of the specification gives \<open>...retrying\<close>.
\<close>

theorem keywords_leading_punctuation_counterexample:
  "Keywords (parse unicode_unused retry_entry) = [''connection'', ''lost'', ''retrying''] \<and>
   keywords_claimed unicode_unused (LogEntry.Message retry_entry) =
     [''connection'', ''lost'', ''...retrying''] \<and>
   Keywords (parse unicode_unused retry_entry) \<noteq>
     keywords_claimed unicode_unused (LogEntry.Message retry_entry)"
proof -
  have a: "Keywords (parse unicode_unused retry_entry) = [''connection'', ''lost'', ''retrying'']"
    by code_simp
  have b: "keywords_claimed unicode_unused (LogEntry.Message retry_entry) =
     [''connection'', ''lost'', ''...retrying'']"
    by code_simp
  show ?thesis unfolding a b by simp
qed

section \<open>Scenario S1\<close>

lemma parse_S1: "parse uc S1_entry = S1_parsed"
  unfolding S1_parsed_def by code_simp

lemma hash_suspicious_db_not_set:
  "\<not> set (positions (bloomFilter NewAnalyzer) ''Suspicious Keywords:db'') \<subseteq>
     set (positions (bloomFilter NewAnalyzer) ''Critical Error Level:db'')"
  by (simp add: positions_critical_db) (simp add: positions_New hash_suspicious_db)

lemma processLog_S1:
  assumes st: "\<forall>n. chosen (env n) = Sent"
  shows "\<exists>a' tr al1 al2. processLog env S1_parsed NewAnalyzer = Inr (a', tr) \<and>
     sent tr = [al1, al2] \<and> built tr = [al1, al2] \<and>
     Reason al1 = ''Critical Error Level'' \<and> Alert.Severity al1 = ''HIGH'' \<and>
     Reason al2 = ''Suspicious Keywords'' \<and> Alert.Severity al2 = ''MEDIUM'' \<and>
     Log al1 = S1_parsed \<and> Log al2 = S1_parsed \<and>
     count_in_window al1 = Some 1 \<and> count_in_window al2 = Some 1 \<and>
     is_known_pattern al1 = Some False \<and> is_known_pattern al2 = Some False"
proof -
  let ?r1 = "\<lparr>Name = ''Critical Error Level'',
       Check = (\<lambda>l. ParsedLog.Level l = ''CRITICAL'' \<or> ParsedLog.Level l = ''FATAL''),
       Severity = ''HIGH''\<rparr>"
  let ?r3 = "\<lparr>Name = ''Suspicious Keywords'',
       Check = (\<lambda>l. list_ex (\<lambda>kw. list_ex (\<lambda>sw. kw = sw) suspiciousWords) (Keywords l)),
       Severity = ''MEDIUM''\<rparr>"
  let ?s0 = "if tick_before_lock (env 0) then [Reset] else []"
  let ?s2 = "if tick_before_lock (env 2) then [Reset] else []"
  note ok0 = NewAnalyzer_ok(1)
  from fire_total [OF ok0] obtain a1 al1 where
    f1: "fire (env 0) ?r1 S1_parsed NewAnalyzer = Inr (a1, al1)"
    by blast
  note ok1 = fire_bf_ok [OF f1 ok0]
  from fire_total [OF ok1] obtain a2 al2 where
    f2: "fire (env 2) ?r3 S1_parsed a1 = Inr (a2, al2)"
    by blast
  have k1: "ruleKey ?r1 S1_parsed = ''Critical Error Level:db''"
    and k3: "ruleKey ?r3 S1_parsed = ''Suspicious Keywords:db''"
    by (simp_all add: ruleKey_def S1_parsed_def)
  have c0: "chosen (env 0) = Sent" and c2: "chosen (env 2) = Sent"
    using st by simp_all
  have p: "processLog env S1_parsed NewAnalyzer =
      Inr (a2, ?s0 @ Built al1 Sent # ?s2 @ [Built al2 Sent])"
    unfolding processLog_def NewAnalyzer_ok(2)
    using f1 f2 c0 c2
    by (simp add: initializeRules_def S1_parsed_def suspiciousWords_def numeral_2_eq_2)
  have s: "sent (?s0 @ Built al1 Sent # ?s2 @ [Built al2 Sent]) = [al1, al2]"
    "built (?s0 @ Built al1 Sent # ?s2 @ [Built al2 Sent]) = [al1, al2]"
    by (simp_all add: sent_append built_append)
  note a1 = fire_alert [OF f1] and a2 = fire_alert [OF f2]
  have n1: "count_in_window al1 = Some 1"
    using fire_count(1,2) [OF f1] by (simp add: count_of_NewAnalyzer)
  have "count_of a1 ''Suspicious Keywords:db'' = 0"
    using fire_count(3) [OF f1, of "''Suspicious Keywords:db''"]
    by (simp add: k1 count_of_NewAnalyzer)
  then have n2: "count_in_window al2 = Some 1"
    using fire_count(1,2) [OF f2] by (simp add: k3)
  have b1: "is_known_pattern al1 = Some False"
    using fire_ones(1) [OF f1 ok0] positions_New_not_empty [of "alertKey al1"]
    by (simp add: ones_NewAnalyzer)
  have b2: "is_known_pattern al2 = Some False"
    using fire_ones(1) [OF f2 ok1] fire_ones(2,3) [OF f1 ok0] hash_suspicious_db_not_set
    by (simp add: ones_NewAnalyzer a1(5) a2(5) k1 k3)
  show ?thesis
    using p s a1(1-3) a2(1-3) n1 n2 b1 b2
    by (intro exI [of _ a2] exI [of _ "?s0 @ Built al1 Sent # ?s2 @ [Built al2 Sent]"]
        exI [of _ al1] exI [of _ al2]) simp
qed

text \<open>
  Claim C6. Parsing the raw log of scenario S1 and processing it on a new analyzer, with
  no shutdown observed, gives exactly two alerts, in this order: Critical Error Level
  with severity HIGH and Suspicious Keywords with severity MEDIUM. Each has
  \<open>count_in_window = 1\<close> and \<open>is_known_pattern = false\<close> and carries the parsed log, whose
  IP is \<open>10.0.0.1\<close> and whose keywords contain \<open>breach\<close>.
\<close>

theorem S1_two_alerts:
  assumes "\<forall>n. chosen (env n) = Sent"
  shows "\<exists>a' tr al1 al2. processLog env (parse uc S1_entry) NewAnalyzer = Inr (a', tr) \<and>
     sent tr = [al1, al2] \<and> built tr = [al1, al2] \<and>
     Reason al1 = ''Critical Error Level'' \<and> Alert.Severity al1 = ''HIGH'' \<and>
     Reason al2 = ''Suspicious Keywords'' \<and> Alert.Severity al2 = ''MEDIUM'' \<and>
     Log al1 = parse uc S1_entry \<and> Log al2 = parse uc S1_entry \<and>
     count_in_window al1 = Some 1 \<and> count_in_window al2 = Some 1 \<and>
     is_known_pattern al1 = Some False \<and> is_known_pattern al2 = Some False \<and>
     IP (parse uc S1_entry) = ''10.0.0.1'' \<and> ''breach'' \<in> set (Keywords (parse uc S1_entry))"
proof -
  have "IP S1_parsed = ''10.0.0.1''" "''breach'' \<in> set (Keywords S1_parsed)"
    by (simp_all add: S1_parsed_def)
  with processLog_S1 [OF assms] show ?thesis
    unfolding parse_S1 by simp
qed

theorem S1_two_alerts_witness:
  "\<exists>a' tr. processLog steady (parse unicode_unused S1_entry) NewAnalyzer = Inr (a', tr) \<and>
     map Reason (sent tr) = [''Critical Error Level'', ''Suspicious Keywords''] \<and>
     map count_in_window (sent tr) = [Some 1, Some 1] \<and>
     map is_known_pattern (sent tr) = [Some False, Some False]"
proof -
  have st: "\<forall>n. chosen (steady n) = Sent"
    by (simp add: steady_def)
  from S1_two_alerts [OF st, of unicode_unused] obtain a' tr al1 al2 where
    "processLog steady (parse unicode_unused S1_entry) NewAnalyzer = Inr (a', tr)"
    "sent tr = [al1, al2]"
    "Reason al1 = ''Critical Error Level''" "Reason al2 = ''Suspicious Keywords''"
    "count_in_window al1 = Some 1" "count_in_window al2 = Some 1"
    "is_known_pattern al1 = Some False" "is_known_pattern al2 = Some False"
    by (elim exE conjE)
  then show ?thesis
    by (intro exI [of _ a'] exI [of _ tr]) simp
qed

section \<open>Analyzer: windows of events\<close>

lemma run_append:
  "run (evs1 @ evs2) a =
     (case run evs1 a of
        Inl p \<Rightarrow> Inl p
      | Inr (a1, tr1) \<Rightarrow>
          (case run evs2 a1 of Inl p \<Rightarrow> Inl p | Inr (a2, tr2) \<Rightarrow> Inr (a2, tr1 @ tr2)))"
proof (induction evs1 arbitrary: a)
  case Nil
  then show ?case by (simp split: sum.splits)
next
  case (Cons ev evs1)
  then show ?case by (cases ev) (simp_all split: sum.splits prod.splits)
qed

lemma processRules_no_reset:
  assumes "\<forall>m. \<not> tick_before_lock (env m)"
  shows "processRules env n rs L a = Inr (a', tr) \<Longrightarrow> Reset \<notin> set tr"
proof (induction rs arbitrary: n a tr)
  case Nil
  then show ?case by simp
next
  case (Cons r rs)
  show ?case
  proof (cases "Check r L")
    case False
    then show ?thesis using Cons.IH [of "Suc n" a tr] Cons.prems by simp
  next
    case True
    from Cons.prems True obtain a3 al where f: "fire (env n) r L a = Inr (a3, al)"
      by (auto split: sum.splits)
    have t: "\<not> tick_before_lock (env n)" using assms by simp
    show ?thesis
    proof (cases "chosen (env n)")
      case ShutdownObserved
      with Cons.prems True f t show ?thesis by auto
    next
      case Sent
      with Cons.prems True f t obtain tr' where
        r: "processRules env (Suc n) rs L a3 = Inr (a', tr')" and "tr = Built al Sent # tr'"
        by (auto split: sum.splits)
      with Cons.IH [OF r] show ?thesis by simp
    qed
  qed
qed

lemma run_tick_free:
  "tick_free evs \<Longrightarrow> run evs a = Inr (a', tr) \<Longrightarrow> Reset \<notin> set tr"
proof (induction evs arbitrary: a tr)
  case Nil
  then show ?case by simp
next
  case (Cons ev evs)
  show ?case
  proof (cases ev)
    case (Recv L env)
    with Cons.prems obtain a1 tr1 tr2 where
      p: "processRules env 0 (rules a) L a = Inr (a1, tr1)" and r: "run evs a1 = Inr (a', tr2)"
      and t: "tr = tr1 @ tr2"
      by (auto simp: processLog_def split: sum.splits)
    from Cons.prems(1) Recv have nt: "\<forall>m. \<not> tick_before_lock (env m)" and tf: "tick_free evs"
      by simp_all
    from processRules_no_reset [OF nt p] Cons.IH [OF tf r] show ?thesis
      unfolding t by simp
  next
    case Tick
    with Cons.prems(1) show ?thesis by simp
  qed
qed

lemma in_window_no_reset:
  "Reset \<notin> set pre \<Longrightarrow>
     in_window K n pre = n + length (filter (\<lambda>x. alertKey x = K) (built pre))"
proof (induction pre arbitrary: n)
  case Nil
  then show ?case by simp
next
  case (Cons x pre)
  then show ?case by (cases x) simp_all
qed

lemma processRules_all_sent:
  assumes "\<forall>m. chosen (env m) = Sent"
  shows "processRules env n rs L a = Inr (a', tr) \<Longrightarrow> sent tr = built tr"
proof (induction rs arbitrary: n a tr)
  case Nil
  then show ?case by simp
next
  case (Cons r rs)
  show ?case
  proof (cases "Check r L")
    case False
    then show ?thesis using Cons.IH [of "Suc n" a tr] Cons.prems by simp
  next
    case True
    from Cons.prems True obtain a3 al where f: "fire (env n) r L a = Inr (a3, al)"
      by (auto split: sum.splits)
    have c: "chosen (env n) = Sent" using assms by simp
    with Cons.prems True f obtain tr' where
      r: "processRules env (Suc n) rs L a3 = Inr (a', tr')"
      and t: "tr = (if tick_before_lock (env n) then [Reset] else []) @ Built al Sent # tr'"
      by (auto split: sum.splits)
    from Cons.IH [OF r] show ?thesis
      unfolding t by (simp add: sent_append built_append)
  qed
qed

lemma run_all_sent:
  "all_sent evs \<Longrightarrow> run evs a = Inr (a', tr) \<Longrightarrow> sent tr = built tr"
proof (induction evs arbitrary: a tr)
  case Nil
  then show ?case by simp
next
  case (Cons ev evs)
  show ?case
  proof (cases ev)
    case (Recv L env)
    with Cons.prems obtain a1 tr1 tr2 where
      p: "processRules env 0 (rules a) L a = Inr (a1, tr1)" and r: "run evs a1 = Inr (a', tr2)"
      and t: "tr = tr1 @ tr2"
      by (auto simp: processLog_def split: sum.splits)
    from Cons.prems(1) Recv have s: "\<forall>m. chosen (env m) = Sent" and as: "all_sent evs"
      by simp_all
    from processRules_all_sent [OF s p] Cons.IH [OF as r] show ?thesis
      unfolding t by (simp add: sent_append built_append)
  next
    case Tick
    with Cons.prems obtain tr2 where r: "run evs (cleanupWindow_tick a) = Inr (a', tr2)"
      and t: "tr = Reset # tr2"
      by (auto split: sum.splits)
    from Cons.prems(1) Tick have "all_sent evs" by simp
    from Cons.IH [OF this r] show ?thesis
      unfolding t by simp
  qed
qed

lemma count_at:
  assumes r: "run evs a = Inr (a', pre @ Built al c # post)"
    and z: "count_of a (alertKey al) = of_nat n"
  shows "count_in_window al = Some (of_nat (Suc (in_window (alertKey al) n pre)))"
proof -
  from run_counts [OF r] have "counts_ok (count_of a) (pre @ Built al c # post)"
    by simp
  from counts_ok_at [OF this] replay_in_window [of "count_of a" "alertKey al" n pre, OF z]
  show ?thesis by simp
qed

lemma count_in_tick_free:
  assumes tf: "tick_free evs"
    and r: "run evs a = Inr (a', pre @ Built al c # post)"
    and z: "count_of a (alertKey al) = of_nat n"
  shows "count_in_window al =
    Some (of_nat (Suc (n + length (filter (\<lambda>x. alertKey x = alertKey al) (built pre)))))"
proof -
  from run_tick_free [OF tf r] have "Reset \<notin> set pre"
    by simp
  from in_window_no_reset [OF this] count_at [OF r z] show ?thesis
    by simp
qed

lemma counts_sequence:
  "counts_ok m tr \<Longrightarrow> Reset \<notin> set tr \<Longrightarrow> m K = of_nat n \<Longrightarrow>
     map count_in_window (filter (\<lambda>al. alertKey al = K) (built tr)) =
       map (\<lambda>j. Some (of_nat (n + j)))
         [1..<Suc (length (filter (\<lambda>al. alertKey al = K) (built tr)))]"
proof (induction tr arbitrary: m n)
  case Nil
  then show ?case by simp
next
  case (Cons x tr)
  show ?case
  proof (cases x)
    case Reset
    with Cons.prems(2) show ?thesis by simp
  next
    case (Built al c)
    let ?m = "\<lambda>k. if k = alertKey al then m k + 1 else m k"
    let ?l = "length (filter (\<lambda>al. alertKey al = K) (built tr))"
    from Cons.prems(1) Built have here: "count_in_window al = Some (m (alertKey al) + 1)"
      and ok: "counts_ok ?m tr"
      by simp_all
    from Cons.prems(2) have nr: "Reset \<notin> set tr" by simp
    show ?thesis
    proof (cases "alertKey al = K")
      case False
      then have "?m K = of_nat n" using Cons.prems(3) by simp
      from Cons.IH [OF ok nr this] False Built show ?thesis by simp
    next
      case True
      then have "?m K = of_nat (Suc n)" using Cons.prems(3) by (simp add: ac_simps)
      from Cons.IH [OF ok nr this]
      have rest: "map count_in_window (filter (\<lambda>al. alertKey al = K) (built tr)) =
          map (\<lambda>j. Some (of_nat (Suc n + j))) [1..<Suc ?l]" .
      have "[1..<Suc (Suc ?l)] = 1 # map Suc [1..<Suc ?l]"
        by (simp add: upt_conv_Cons map_Suc_upt del: upt_Suc)
      then have "map (\<lambda>j. Some (of_nat (n + j) :: 64 word)) [1..<Suc (Suc ?l)] =
          Some (of_nat (Suc n)) # map (\<lambda>j. Some (of_nat (Suc n + j))) [1..<Suc ?l]"
        by (simp add: comp_def del: upt_Suc)
      with rest here True Built Cons.prems(3) show ?thesis
        by (simp add: ac_simps del: upt_Suc)
    qed
  qed
qed

lemma sent_counts_sequence:
  assumes "all_sent evs" "tick_free evs" "run evs a = Inr (a', tr)" "count_of a K = of_nat n"
  shows "sent_counts K tr =
    map (\<lambda>j. Some (of_nat (n + j))) [1..<Suc (length (sent_counts K tr))]"
proof -
  have s: "sent tr = built tr"
    using run_all_sent [OF assms(1,3)] .
  have l: "length (map count_in_window (filter (\<lambda>al. alertKey al = K) (built tr))) =
      length (filter (\<lambda>al. alertKey al = K) (built tr))"
    by (rule length_map)
  show ?thesis
    unfolding sent_counts_def s l
    by (rule counts_sequence [OF conjunct1 [OF run_counts [OF assms(3)]]
          run_tick_free [OF assms(2,3)] assms(4)])
qed

lemma count_after_tick:
  assumes tf: "tick_free evs2"
    and r: "run (evs1 @ Tick # evs2) a = Inr (a', tr)"
  shows "\<exists>a1 tr1 tr2. run evs1 a = Inr (a1, tr1) \<and> tr = tr1 @ Reset # tr2 \<and>
     (\<forall>pre2 al2 c2 post2. tr2 = pre2 @ Built al2 c2 # post2 \<longrightarrow>
        count_in_window al2 =
          Some (of_nat (Suc (length (filter (\<lambda>x. alertKey x = alertKey al2) (built pre2)))))) \<and>
     (all_sent evs2 \<longrightarrow>
        sent_counts K tr2 =
          map (\<lambda>j. Some (of_nat (0 + j))) [1..<Suc (length (sent_counts K tr2))])"
proof -
  from r obtain a1 tr1 trr where
    r1: "run evs1 a = Inr (a1, tr1)" and rr: "run (Tick # evs2) a1 = Inr (a', trr)"
    and t: "tr = tr1 @ trr"
    unfolding run_append by (auto split: sum.splits)
  from rr obtain tr2 where r2: "run evs2 (cleanupWindow_tick a1) = Inr (a', tr2)"
    and t2: "trr = Reset # tr2"
    by (auto split: sum.splits)
  have z: "count_of (cleanupWindow_tick a1) k = of_nat 0" for k
    by (simp add: count_of_tick)
  have c: "count_in_window al2 =
      Some (of_nat (Suc (length (filter (\<lambda>x. alertKey x = alertKey al2) (built pre2)))))"
    if s: "tr2 = pre2 @ Built al2 c2 # post2" for pre2 al2 c2 post2
    using count_in_tick_free [OF tf r2 [unfolded s] z] by simp
  have q: "sent_counts K tr2 =
      map (\<lambda>j. Some (of_nat (0 + j))) [1..<Suc (length (sent_counts K tr2))]"
    if "all_sent evs2"
    by (rule sent_counts_sequence [OF that tf r2 z])
  have t': "tr = tr1 @ Reset # tr2"
    using t t2 by simp
  from r1 t' c q show ?thesis
    by (intro exI [of _ a1] exI [of _ tr1] exI [of _ tr2] conjI allI impI)
qed

section \<open>The window counter\<close>

text \<open>
  Claim C4, as the code has it. Take a run of the analyzer from a state where the counter
  of the key \<open>K = ruleName:source\<close> holds \<open>n\<close>.

  \<^item> Every alert built for \<open>K\<close> carries 1 more than the number of alerts for \<open>K\<close> built
    since the last window reset before it (plus \<open>n\<close>, if there was none); the count is a Go
    \<open>int\<close>, and its signed reading is that number as long as it is below \<open>2^63\<close>.
  \<^item> In a run where no ticker fires (no tick between two records and none inside a round),
    the alert for \<open>K\<close> that follows \<open>m\<close> alerts for \<open>K\<close> carries \<open>n + m + 1\<close>.
  \<^item> A tick between two records puts a reset in the history, after everything the records
    before it did; when no ticker fires after it, the alert for a key that follows \<open>m\<close>
    alerts for that key built since the tick carries \<open>m + 1\<close>, whatever the counters held
    before the tick, and, when in addition no send meets the shutdown case, the counts
    sent for \<open>K\<close> since the tick are exactly \<open>1, 2, 3, ...\<close>.
  \<^item> When no send meets the shutdown case, the alerts sent are all the alerts built.
  \<^item> When no send meets the shutdown case and no ticker fires, the counts sent for \<open>K\<close>
    are exactly \<open>n + 1, n + 2, n + 3, ...\<close>.
  \<^item> A tick puts the count of every key to 0 at once.
  \<^item> The count an alert carries is the value of its key's counter after the increment of
    its own round, which starts from 0 when the ticker took the lock just before the round.
  \<^item> A run from a state with a well-formed filter never fails.
\<close>

theorem window_counts_sequence:
  "(run evs a = Inr (a', pre @ Built al c # post) \<and> count_of a (alertKey al) = of_nat n \<longrightarrow>
      count_in_window al = Some (of_nat (Suc (in_window (alertKey al) n pre))) \<and>
      (Suc (in_window (alertKey al) n pre) < 2 ^ 63 \<longrightarrow>
         sint (of_nat (Suc (in_window (alertKey al) n pre)) :: 64 word) =
           int (Suc (in_window (alertKey al) n pre)))) \<and>
   (tick_free evs \<and> run evs a = Inr (a', pre @ Built al c # post) \<and>
      count_of a (alertKey al) = of_nat n \<longrightarrow>
      count_in_window al =
        Some (of_nat (Suc (n + length (filter (\<lambda>x. alertKey x = alertKey al) (built pre)))))) \<and>
   (tick_free evs2 \<and> run (evs1 @ Tick # evs2) a = Inr (a', tr) \<longrightarrow>
      (\<exists>a1 tr1 tr2. run evs1 a = Inr (a1, tr1) \<and> tr = tr1 @ Reset # tr2 \<and>
         (\<forall>pre2 al2 c2 post2. tr2 = pre2 @ Built al2 c2 # post2 \<longrightarrow>
            count_in_window al2 =
              Some (of_nat (Suc (length (filter (\<lambda>x. alertKey x = alertKey al2) (built pre2)))))) \<and>
         (all_sent evs2 \<longrightarrow>
            sent_counts K tr2 =
              map (\<lambda>j. Some (of_nat (0 + j))) [1..<Suc (length (sent_counts K tr2))]))) \<and>
   (all_sent evs \<and> run evs a = Inr (a', tr) \<longrightarrow> sent tr = built tr) \<and>
   (all_sent evs \<and> tick_free evs \<and> run evs a = Inr (a', tr) \<and> count_of a K = of_nat n \<longrightarrow>
      sent_counts K tr =
        map (\<lambda>j. Some (of_nat (n + j))) [1..<Suc (length (sent_counts K tr))]) \<and>
   count_of (cleanupWindow_tick a) k = 0 \<and>
   (fire e r L a = Inr (a3, al3) \<longrightarrow>
      count_in_window al3 = Some (count_of a3 (ruleKey r L)) \<and>
      count_of a3 (ruleKey r L) =
        (if tick_before_lock e then 0 else count_of a (ruleKey r L)) + 1) \<and>
   (bf_ok (bloomFilter a) \<longrightarrow> (\<exists>a1 tr1. run evs a = Inr (a1, tr1)))"
proof (intro conjI impI)
  assume "run evs a = Inr (a', pre @ Built al c # post) \<and> count_of a (alertKey al) = of_nat n"
  then show "count_in_window al = Some (of_nat (Suc (in_window (alertKey al) n pre)))"
    using count_at by blast
next
  assume "Suc (in_window (alertKey al) n pre) < 2 ^ 63"
  then show "sint (of_nat (Suc (in_window (alertKey al) n pre)) :: 64 word) =
           int (Suc (in_window (alertKey al) n pre))"
    by (rule sint_of_nat_64)
next
  assume "tick_free evs \<and> run evs a = Inr (a', pre @ Built al c # post) \<and>
      count_of a (alertKey al) = of_nat n"
  then show "count_in_window al =
        Some (of_nat (Suc (n + length (filter (\<lambda>x. alertKey x = alertKey al) (built pre)))))"
    using count_in_tick_free by blast
next
  assume "tick_free evs2 \<and> run (evs1 @ Tick # evs2) a = Inr (a', tr)"
  then have tf: "tick_free evs2" and r: "run (evs1 @ Tick # evs2) a = Inr (a', tr)"
    by simp_all
  from count_after_tick [OF tf r]
  show "\<exists>a1 tr1 tr2. run evs1 a = Inr (a1, tr1) \<and> tr = tr1 @ Reset # tr2 \<and>
         (\<forall>pre2 al2 c2 post2. tr2 = pre2 @ Built al2 c2 # post2 \<longrightarrow>
            count_in_window al2 =
              Some (of_nat (Suc (length (filter (\<lambda>x. alertKey x = alertKey al2) (built pre2)))))) \<and>
         (all_sent evs2 \<longrightarrow>
            sent_counts K tr2 =
              map (\<lambda>j. Some (of_nat (0 + j))) [1..<Suc (length (sent_counts K tr2))])" .
next
  assume "all_sent evs \<and> run evs a = Inr (a', tr)"
  then show "sent tr = built tr"
    using run_all_sent by blast
next
  assume "all_sent evs \<and> tick_free evs \<and> run evs a = Inr (a', tr) \<and> count_of a K = of_nat n"
  then show "sent_counts K tr =
        map (\<lambda>j. Some (of_nat (n + j))) [1..<Suc (length (sent_counts K tr))]"
    using sent_counts_sequence by blast
next
  show "count_of (cleanupWindow_tick a) k = 0"
    by (rule count_of_tick)
next
  assume f: "fire e r L a = Inr (a3, al3)"
  show "count_in_window al3 = Some (count_of a3 (ruleKey r L))"
    by (rule fire_count(1) [OF f])
  show "count_of a3 (ruleKey r L) =
        (if tick_before_lock e then 0 else count_of a (ruleKey r L)) + 1"
    by (rule fire_count(2) [OF f])
next
  assume "bf_ok (bloomFilter a)"
  then show "\<exists>a1 tr1. run evs a = Inr (a1, tr1)"
    by (rule run_total)
qed

lemma processLog_critical_halted:
  assumes "bf_ok (bloomFilter a)" "rules a = initializeRules"
  shows "\<exists>a3 al. processLog halted (critical_from s) a = Inr (a3, [Built al ShutdownObserved]) \<and>
     alertKey al = ''Critical Error Level:'' @ s \<and>
     rules a3 = initializeRules \<and> bf_ok (bloomFilter a3)"
proof -
  let ?r = "\<lparr>Name = ''Critical Error Level'',
       Check = (\<lambda>l. ParsedLog.Level l = ''CRITICAL'' \<or> ParsedLog.Level l = ''FATAL''),
       Severity = ''HIGH''\<rparr>"
  from fire_total [OF assms(1)] obtain a3 al where
    f: "fire (halted 0) ?r (critical_from s) a = Inr (a3, al)"
    by blast
  have "processLog halted (critical_from s) a = Inr (a3, [Built al ShutdownObserved])"
    unfolding processLog_def assms(2)
    using f by (simp add: initializeRules_def critical_from_def halted_def)
  moreover have "alertKey al = ''Critical Error Level:'' @ s"
    using fire_alert(5) [OF f] by (simp add: ruleKey_def critical_from_def)
  moreover have "rules a3 = initializeRules" "bf_ok (bloomFilter a3)"
    using fire_filter(2) [OF f] fire_bf_ok [OF f assms(1)] assms(2) by simp_all
  ultimately show ?thesis by blast
qed

lemma tick_ok:
  "bf_ok (bloomFilter a) \<Longrightarrow> bf_ok (bloomFilter (cleanupWindow_tick a))"
  "rules a = initializeRules \<Longrightarrow> rules (cleanupWindow_tick a) = initializeRules"
  by (simp_all add: tick_frame)

text \<open>
  Claim C4 as the specification states it (the values emitted for a key are 1, 2, 3, ...)
  fails when an alert is abandoned at shutdown: of three records from one source, the
  second meeting the shutdown case in its \<open>select\<close>, the two alerts sent carry 1 and 3.
\<close>

theorem sent_counts_skip_counterexample:
  "sent_counts ''Critical Error Level:api''
     (history (run [Recv (critical_from ''api'') steady, Recv (critical_from ''api'') halted,
                    Recv (critical_from ''api'') steady] NewAnalyzer)) =
     [Some 1, Some 3]"
proof -
  let ?evs = "[Recv (critical_from ''api'') steady, Recv (critical_from ''api'') halted,
               Recv (critical_from ''api'') steady]"
  from processLog_critical [OF NewAnalyzer_ok, of "''api''"] obtain a1 al1 where
    p1: "processLog steady (critical_from ''api'') NewAnalyzer = Inr (a1, [Built al1 Sent])"
    and k1: "alertKey al1 = ''Critical Error Level:'' @ ''api''"
    and ok1: "bf_ok (bloomFilter a1)" "rules a1 = initializeRules"
    by blast
  from processLog_critical_halted [OF ok1, of "''api''"] obtain a2 al2 where
    p2: "processLog halted (critical_from ''api'') a1 = Inr (a2, [Built al2 ShutdownObserved])"
    and k2: "alertKey al2 = ''Critical Error Level:'' @ ''api''"
    and ok2: "bf_ok (bloomFilter a2)" "rules a2 = initializeRules"
    by blast
  from processLog_critical [OF ok2, of "''api''"] obtain a3 al3 where
    p3: "processLog steady (critical_from ''api'') a2 = Inr (a3, [Built al3 Sent])"
    and k3: "alertKey al3 = ''Critical Error Level:'' @ ''api''"
    by blast
  have r: "run ?evs NewAnalyzer =
      Inr (a3, [Built al1 Sent, Built al2 ShutdownObserved, Built al3 Sent])"
    using p1 p2 p3 by simp
  from run_counts [OF r] have "counts_ok (count_of NewAnalyzer)
      [Built al1 Sent, Built al2 ShutdownObserved, Built al3 Sent]"
    by simp
  then have "count_in_window al1 = Some 1" "count_in_window al3 = Some 3"
    using k1 k2 k3 by (simp_all add: count_of_NewAnalyzer)
  with k1 k3 show ?thesis
    unfolding r by (simp add: sent_counts_def history_def)
qed

theorem window_counts_sequence_witness:
  "sent_counts ''Critical Error Level:api''
     (history (run [Recv (critical_from ''api'') steady, Recv (critical_from ''api'') steady]
        NewAnalyzer)) = [Some 1, Some 2] \<and>
   sent_counts ''Critical Error Level:api''
     (history (run [Recv (critical_from ''api'') steady, Tick, Recv (critical_from ''api'') steady]
        NewAnalyzer)) = [Some 1, Some 1] \<and>
   sint (2 :: 64 word) = 2 \<and>
   (\<exists>a3 al3. fire (steady 0) (hd initializeRules) (critical_from ''api'') NewAnalyzer = Inr (a3, al3) \<and>
      count_in_window al3 = Some 1 \<and> count_of a3 ''Critical Error Level:api'' = 1)"
proof -
  let ?R = "Recv (critical_from ''api'') steady"
  let ?K = "''Critical Error Level:api''"
  from processLog_critical [OF NewAnalyzer_ok, of "''api''"] obtain a1 al1 where
    p1: "processLog steady (critical_from ''api'') NewAnalyzer = Inr (a1, [Built al1 Sent])"
    and k1: "alertKey al1 = ?K"
    and ok1: "bf_ok (bloomFilter a1)" "rules a1 = initializeRules"
    by auto
  from processLog_critical [OF ok1, of "''api''"] obtain a2 al2 where
    p2: "processLog steady (critical_from ''api'') a1 = Inr (a2, [Built al2 Sent])"
    and k2: "alertKey al2 = ?K"
    by auto
  from processLog_critical [OF tick_ok(1) [OF ok1(1)] tick_ok(2) [OF ok1(2)], of "''api''"]
  obtain b2 bl2 where
    p3: "processLog steady (critical_from ''api'') (cleanupWindow_tick a1) = Inr (b2, [Built bl2 Sent])"
    and k3: "alertKey bl2 = ?K"
    by auto
  have r1: "run [?R] NewAnalyzer = Inr (a1, [Built al1 Sent])"
    using p1 by simp
  have rA: "run [?R, ?R] NewAnalyzer = Inr (a2, [Built al1 Sent, Built al2 Sent])"
    using p1 p2 by simp
  have rB: "run ([?R] @ Tick # [?R]) NewAnalyzer = Inr (b2, [Built al1 Sent, Reset, Built bl2 Sent])"
    using p1 p3 by simp
  have tf: "tick_free [?R, ?R]" "tick_free [?R]" and as: "all_sent [?R, ?R]"
    by (simp_all add: steady_def)
  have z: "count_of NewAnalyzer K = of_nat 0" for K
    by (simp add: count_of_NewAnalyzer)
  \<comment> \<open>the first conjunct: any history\<close>
  have rA2: "run [?R, ?R] NewAnalyzer = Inr (a2, [Built al1 Sent] @ Built al2 Sent # [])"
    using rA by simp
  have rA1: "run [?R, ?R] NewAnalyzer = Inr (a2, [] @ Built al1 Sent # [Built al2 Sent])"
    using rA by simp
  note thA = window_counts_sequence [where evs = "[?R, ?R]" and a = NewAnalyzer and a' = a2
      and pre = "[Built al1 Sent]" and al = al2 and c = Sent and post = "[]" and n = 0,
      THEN conjunct1, THEN mp, OF conjI [OF rA2 z]]
  have g2: "count_in_window al2 = Some 2"
    using thA [THEN conjunct1] k1 k2 by simp
  have s2: "sint (2 :: 64 word) = 2"
    using thA [THEN conjunct2] k1 k2 by simp
  \<comment> \<open>the second conjunct: a window without a tick\<close>
  have n1: "count_in_window al1 = Some 1"
    using window_counts_sequence [where evs = "[?R, ?R]" and a = NewAnalyzer and a' = a2
      and pre = "[]" and al = al1 and c = Sent and post = "[Built al2 Sent]" and n = 0,
      THEN conjunct2, THEN conjunct1, THEN mp, OF conjI [OF tf(1) conjI [OF rA1 z]]]
    by simp
  have n2: "count_in_window al2 = Some 2"
    using window_counts_sequence [where evs = "[?R, ?R]" and a = NewAnalyzer and a' = a2
      and pre = "[Built al1 Sent]" and al = al2 and c = Sent and post = "[]" and n = 0,
      THEN conjunct2, THEN conjunct1, THEN mp, OF conjI [OF tf(1) conjI [OF rA2 z]]] k1 k2
    by simp
  \<comment> \<open>the third conjunct: after a tick\<close>
  from window_counts_sequence [where ?evs1.0 = "[?R]" and ?evs2.0 = "[?R]" and a = NewAnalyzer
      and a' = b2 and tr = "[Built al1 Sent, Reset, Built bl2 Sent]" and K = ?K,
      THEN conjunct2, THEN conjunct2, THEN conjunct1, THEN mp, OF conjI [OF tf(2) rB]]
  obtain c1 tr1 tr2 where
    q1: "run [?R] NewAnalyzer = Inr (c1, tr1)"
    and q2: "[Built al1 Sent, Reset, Built bl2 Sent] = tr1 @ Reset # tr2"
    and q3: "\<forall>pre2 al2 c2 post2. tr2 = pre2 @ Built al2 c2 # post2 \<longrightarrow>
        count_in_window al2 =
          Some (of_nat (Suc (length (filter (\<lambda>x. alertKey x = alertKey al2) (built pre2)))))"
    and q4: "all_sent [?R] \<longrightarrow>
        sent_counts ?K tr2 =
          map (\<lambda>j. Some (of_nat (0 + j))) [1..<Suc (length (sent_counts ?K tr2))]"
    by (elim exE conjE)
  have "all_sent [?R]"
    by (simp add: steady_def)
  with q4 have q5: "sent_counts ?K tr2 =
      map (\<lambda>j. Some (of_nat (0 + j))) [1..<Suc (length (sent_counts ?K tr2))]"
    by (rule mp)
  from q1 r1 have "tr1 = [Built al1 Sent]" by simp
  with q2 have "tr2 = [] @ Built bl2 Sent # []" by simp
  with q3 have m2: "count_in_window bl2 = Some 1"
    by (metis built.simps(1) filter.simps(1) list.size(3) of_nat_1 One_nat_def)
  \<comment> \<open>the fourth conjunct: no shutdown\<close>
  have sb: "sent [Built al1 Sent, Built al2 Sent] = built [Built al1 Sent, Built al2 Sent]"
    using window_counts_sequence [where evs = "[?R, ?R]" and a = NewAnalyzer and a' = a2
      and tr = "[Built al1 Sent, Built al2 Sent]",
      THEN conjunct2, THEN conjunct2, THEN conjunct2, THEN conjunct1, THEN mp,
      OF conjI [OF as rA]] .
  \<comment> \<open>the reset and the increment\<close>
  have sq: "sent_counts ?K [Built al1 Sent, Built al2 Sent] =
      map (\<lambda>j. Some (of_nat (0 + j)))
        [1..<Suc (length (sent_counts ?K [Built al1 Sent, Built al2 Sent]))]"
    using window_counts_sequence [where evs = "[?R, ?R]" and a = NewAnalyzer and a' = a2
      and tr = "[Built al1 Sent, Built al2 Sent]" and K = ?K and n = 0,
      THEN conjunct2, THEN conjunct2, THEN conjunct2, THEN conjunct2, THEN conjunct1, THEN mp,
      OF conjI [OF as conjI [OF tf(1) conjI [OF rA z]]]] .
  from window_counts_sequence [where a = a1 and k = ?K,
      THEN conjunct2, THEN conjunct2, THEN conjunct2, THEN conjunct2, THEN conjunct2,
      THEN conjunct1]
  have z1: "count_of (cleanupWindow_tick a1) ?K = 0" .
  from fire_first_rule obtain a3 al3 where
    f: "fire (steady 0) (hd initializeRules) (critical_from ''api'') NewAnalyzer = Inr (a3, al3)"
    by blast
  have kk: "ruleKey (hd initializeRules) (critical_from ''api'') = ?K"
    by (simp add: ruleKey_def initializeRules_def critical_from_def)
  have t: "\<not> tick_before_lock (steady 0)"
    by (simp add: steady_def)
  from window_counts_sequence [where a = NewAnalyzer and e = "steady 0" and r = "hd initializeRules"
      and L = "critical_from ''api''" and ?a3.0 = a3 and ?al3.0 = al3,
      THEN conjunct2, THEN conjunct2, THEN conjunct2, THEN conjunct2, THEN conjunct2,
      THEN conjunct2, THEN conjunct1, THEN mp, OF f]
  have "count_in_window al3 = Some (count_of a3 (ruleKey (hd initializeRules) (critical_from ''api''))) \<and>
      count_of a3 (ruleKey (hd initializeRules) (critical_from ''api'')) =
        (if tick_before_lock (steady 0) then 0
         else count_of NewAnalyzer (ruleKey (hd initializeRules) (critical_from ''api''))) + 1" .
  then have f3: "count_in_window al3 = Some 1 \<and> count_of a3 ?K = 1"
    unfolding kk using t by (simp add: count_of_NewAnalyzer)
  \<comment> \<open>a run from the new analyzer returns\<close>
  from window_counts_sequence [where a = NewAnalyzer and evs = "[?R, Tick, ?R]",
      THEN conjunct2, THEN conjunct2, THEN conjunct2, THEN conjunct2, THEN conjunct2,
      THEN conjunct2, THEN conjunct2, THEN mp, OF NewAnalyzer_ok(1)]
  have "\<exists>a1 tr1. run [?R, Tick, ?R] NewAnalyzer = Inr (a1, tr1)" .
  have "length (sent_counts ?K [Built al1 Sent, Built al2 Sent]) = 2"
    using k1 k2 by (simp add: sent_counts_def)
  with sq have "sent_counts ?K [Built al1 Sent, Built al2 Sent] = [Some 1, Some 2]"
    by (simp add: upt_rec)
  then have A: "sent_counts ?K (history (run [?R, ?R] NewAnalyzer)) = [Some 1, Some 2]"
    unfolding rA by (simp add: history_def)
  have rB': "run [?R, Tick, ?R] NewAnalyzer = Inr (b2, [Built al1 Sent, Reset, Built bl2 Sent])"
    using rB by simp
  have B: "sent_counts ?K (history (run [?R, Tick, ?R] NewAnalyzer)) = [Some 1, Some 1]"
    unfolding rB' using n1 m2 k1 k3 by (simp add: sent_counts_def history_def)
  from f f3 have "\<exists>a3 al3. fire (steady 0) (hd initializeRules) (critical_from ''api'') NewAnalyzer =
      Inr (a3, al3) \<and> count_in_window al3 = Some 1 \<and> count_of a3 ?K = 1"
    by blast
  with A B s2 show ?thesis
    by (intro conjI)
qed

end
